theory Spec2Isabelle
  imports Complex_Main "HOL-Library.Multiset" "HOL-Library.Word"
begin

section \<open>The NCCL communicator: data model\<close>

text \<open>
  The development follows \<^verbatim>\<open>NCCLCommunicator\<close> (the communicator header of the training
  directory).  A communicator is bound to one expression graph per local GPU; with MPI,
  every process holds its own instance.  Sizes and ranks are \<^verbatim>\<open>size_t\<close> in the source;
  they count elements of buffers that exist in memory and devices of a cluster, and are
  modelled as natural numbers.  Every \<^verbatim>\<open>ABORT\<close> of the source, every read it performs
  outside a container and every division by zero is a value of the type \<open>error\<close>.
\<close>

datatype error =
    Abort string
  | OutOfBounds
  | DivisionByZero

text \<open>
  The element types of a tensor.  The source names \<^verbatim>\<open>Type::float16\<close> only; the
  declaration of the enumeration is not part of the communicator, so every member other than
  the two floating-point precisions the communicator speaks about is kept as \<open>otherType\<close>
  with its numeric tag.
\<close>

datatype Type = float16 | float32 | otherType nat

record 'a tensor =
  data :: "'a list"
  ttype :: Type

record 'a graph =
  vals :: "'a tensor"
  grads :: "'a tensor"

record IMPIWrapper =
  myMPIRank :: nat
  numMPIProcesses :: nat

text \<open>
  \<open>graphs\<close> is \<^verbatim>\<open>graphs_\<close>, indexed by local device; \<^verbatim>\<open>devices_\<close>, \<^verbatim>\<open>comms_\<close> and
  \<^verbatim>\<open>streams_\<close> have the same length by construction.  \<open>mpi\<close> is \<^verbatim>\<open>mpi_\<close>, which may
  be null.
\<close>

record 'a comm =
  graphs :: "'a graph list"
  mpi :: "IMPIWrapper option"

section \<open>Ranks and shards\<close>

definition myNcclRank :: "'a comm \<Rightarrow> nat \<Rightarrow> nat" where
  "myNcclRank c localDeviceIndex =
     (case mpi c of
        Some m \<Rightarrow> myMPIRank m * length (graphs c) + localDeviceIndex
      | None \<Rightarrow> localDeviceIndex)"

definition numNcclRanks :: "'a comm \<Rightarrow> nat" where
  "numNcclRanks c =
     (case mpi c of
        Some m \<Rightarrow> numMPIProcesses m * length (graphs c)
      | None \<Rightarrow> length (graphs c))"

text \<open>\<^verbatim>\<open>graphs_[0]->params()->vals()->size()\<close>: reading \<^verbatim>\<open>graphs_[0]\<close> of an empty vector
  is outside the vector.\<close>

definition dataSize :: "'a comm \<Rightarrow> error + nat" where
  "dataSize c =
     (case graphs c of
        [] \<Rightarrow> Inl OutOfBounds
      | g # _ \<Rightarrow> Inr (length (data (vals g))))"

definition shardSize :: "'a comm \<Rightarrow> error + nat" where
  "shardSize c =
     (let numShards = numNcclRanks c in
      case dataSize c of
        Inl e \<Rightarrow> Inl e
      | Inr dataSz \<Rightarrow>
          if numShards = 0 then Inl DivisionByZero
          else
            let sz = (dataSz + numShards - 1) div numShards in
            if sz * numShards \<noteq> dataSz
            then Inl (Abort ''presently, all shards must have the same size'')
            else Inr sz)"

text \<open>
  The arithmetic of \<^verbatim>\<open>shardSize\<close> on \<^verbatim>\<open>size_t\<close>, with its wrap-around.  It agrees
  with the arithmetic on natural numbers as long as the data size plus the number of shards
  does not exceed \<open>2 ^ 64\<close> (the lemma \<open>shardSize64_nat\<close> below), which holds for the element
  count of a buffer in memory and the number of devices of a run.
\<close>

definition shardSize64 :: "64 word \<Rightarrow> 64 word \<Rightarrow> error + 64 word" where
  "shardSize64 dataSz numShards =
     (if numShards = 0 then Inl DivisionByZero
      else
        let sz = (dataSz + numShards - 1) div numShards in
        if sz * numShards \<noteq> dataSz
        then Inl (Abort ''presently, all shards must have the same size'')
        else Inr sz)"

definition ncclRankShardRange :: "'a comm \<Rightarrow> nat \<Rightarrow> error + nat \<times> nat" where
  "ncclRankShardRange c rank =
     (case shardSize c of
        Inl e \<Rightarrow> Inl e
      | Inr sz \<Rightarrow>
          (case dataSize c of
             Inl e \<Rightarrow> Inl e
           | Inr dataSz \<Rightarrow>
               let shardBegin = rank * sz;
                   shardEnd = shardBegin + sz;
                   shardEnd = min shardEnd dataSz
               in Inr (shardBegin, shardEnd)))"

definition localShardRange :: "'a comm \<Rightarrow> nat \<Rightarrow> error + nat \<times> nat" where
  "localShardRange c localDeviceIndex = ncclRankShardRange c (myNcclRank c localDeviceIndex)"

text \<open>The index set of a half-open range; a failed computation owns no index.\<close>

definition rangeSet :: "error + nat \<times> nat \<Rightarrow> nat set" where
  "rangeSet r = (case r of Inl _ \<Rightarrow> {} | Inr (b, e) \<Rightarrow> {b..<e})"

section \<open>Fan-out over the local devices\<close>

text \<open>
  \<^verbatim>\<open>ForeachFunc<Ret>\<close> is called with the local device index and the device's shard
  range.  The functions the communicator passes write to the graph of their device, so a
  per-device function takes the state it may change and returns it with its result.
  \<^verbatim>\<open>AccFunc<Ret>\<close> updates its first argument in place; here it returns the new value.
\<close>

type_synonym ('r, 'st) ForeachFunc = "nat \<Rightarrow> nat \<Rightarrow> nat \<Rightarrow> 'st \<Rightarrow> 'r \<times> 'st"

type_synonym 'r AccFunc = "'r \<Rightarrow> 'r \<Rightarrow> 'r"

text \<open>
  The first loop of \<^verbatim>\<open>foreachAcc\<close>, over the device indices still to visit.  Its state is
  \<^verbatim>\<open>retValue\<close>, \<^verbatim>\<open>threadResults\<close> and the state the per-device functions work on.
  In the parallel mode the loop only enqueues: \<^verbatim>\<open>threadResults\<close> is assigned at ascending
  indices, so it is the list of the tasks enqueued so far, each with the device index and the
  shard range it was enqueued with.  In the sequential mode the function is called and its
  result folded at once.
\<close>

type_synonym task = "nat \<times> nat \<times> nat"

fun foreachAcc_loop ::
  "'a comm \<Rightarrow> ('r, 'st) ForeachFunc \<Rightarrow> 'r AccFunc \<Rightarrow> bool \<Rightarrow> nat list
     \<Rightarrow> 'r \<times> task list \<times> 'st \<Rightarrow> error + 'r \<times> task list \<times> 'st" where
  "foreachAcc_loop c func acc parallel [] s = Inr s"
| "foreachAcc_loop c func acc parallel (i # is) (retValue, threadResults, st) =
     (case localShardRange c i of
        Inl e \<Rightarrow> Inl e
      | Inr (shardBegin, shardEnd) \<Rightarrow>
          if parallel
          then foreachAcc_loop c func acc parallel is
                 (retValue, threadResults @ [(i, shardBegin, shardEnd)], st)
          else (case func i shardBegin shardEnd st of
                  (r, st') \<Rightarrow>
                    foreachAcc_loop c func acc parallel is (acc retValue r, threadResults, st')))"

text \<open>
  The thread pool runs the enqueued tasks, each once, in an order of its own.  The tasks are
  given here in the order in which they run; every task is taken as one step, and its
  effect on the state is seen by the tasks that run after it.  A task has the shard range
  it was enqueued with, and no task changes what the shard ranges are computed from, so
  the tasks are run after the first loop.  The result is the value of the future of every
  task, with the index of the task, and the state after the last task.
\<close>

fun threadPool_run ::
  "('r, 'st) ForeachFunc \<Rightarrow> task list \<Rightarrow> 'st \<Rightarrow> (nat \<times> 'r) list \<times> 'st" where
  "threadPool_run func [] st = ([], st)"
| "threadPool_run func ((i, shardBegin, shardEnd) # ts) st =
     (case func i shardBegin shardEnd st of
        (r, st') \<Rightarrow>
          (case threadPool_run func ts st' of (finished, st'') \<Rightarrow> ((i, r) # finished, st'')))"

text \<open>
  \<open>prio\<close> is the schedule of the thread pool: the tasks run in ascending order of \<open>prio\<close> of
  their index, tasks of equal \<open>prio\<close> in the order in which they were enqueued.  Every order
  of the tasks is the order of some \<open>prio\<close>.  The second loop waits for the futures in the order
  of \<^verbatim>\<open>threadResults\<close>, that is in ascending order of the index, and folds their values.
\<close>

definition foreachAcc ::
  "'a comm \<Rightarrow> ('r, 'st) ForeachFunc \<Rightarrow> 'r AccFunc \<Rightarrow> 'r \<Rightarrow> bool \<Rightarrow> (nat \<Rightarrow> nat) \<Rightarrow> 'st
     \<Rightarrow> error + 'r \<times> 'st" where
  "foreachAcc c func acc init parallel prio st =
     (let parallel = (parallel \<and> length (graphs c) > 1) in
      case foreachAcc_loop c func acc parallel [0..<length (graphs c)] (init, [], st) of
        Inl e \<Rightarrow> Inl e
      | Inr (retValue, threadResults, st') \<Rightarrow>
          if parallel
          then (case threadPool_run func
                       (sort_key (\<lambda>(i, shardBegin, shardEnd). prio i) threadResults) st' of
                  (finished, st'') \<Rightarrow>
                    Inr (foldl acc retValue (map snd (sort_key fst finished)), st''))
          else Inr (retValue, st'))"

text \<open>The overload of \<^verbatim>\<open>foreach\<close> that returns \<^verbatim>\<open>bool\<close>; \<open>allTrue\<close> is its reducer.\<close>

definition allTrue :: "bool AccFunc" where
  "allTrue x y = (x \<and> y)"

definition foreach ::
  "'a comm \<Rightarrow> (bool, 'st) ForeachFunc \<Rightarrow> bool \<Rightarrow> (nat \<Rightarrow> nat) \<Rightarrow> 'st \<Rightarrow> error + bool \<times> 'st" where
  "foreach c func parallel prio st = foreachAcc c func allTrue True parallel prio st"

text \<open>
  The per-device function called for the given devices in order, on the shard ranges \<open>rng\<close>:
  the results and the final state.  The properties of the fan-out are stated against it.
\<close>

fun runDevices ::
  "('r, 'st) ForeachFunc \<Rightarrow> (nat \<Rightarrow> nat \<times> nat) \<Rightarrow> nat list \<Rightarrow> 'st \<Rightarrow> 'r list \<times> 'st" where
  "runDevices func rng [] st = ([], st)"
| "runDevices func rng (i # is) st =
     (case func i (fst (rng i)) (snd (rng i)) st of
        (r, st') \<Rightarrow> (case runDevices func rng is st' of (rs, st'') \<Rightarrow> (r # rs, st'')))"

text \<open>
  The schedule under which the devices run in the order of a given list: the position of
  the device in the list.
\<close>

fun position :: "nat list \<Rightarrow> nat \<Rightarrow> nat" where
  "position [] i = 0"
| "position (j # js) i = (if i = j then 0 else Suc (position js i))"

section \<open>Collective calls\<close>

datatype ncclDataType_t = ncclFloat16 | ncclFloat32

text \<open>The selection of the element type, written out before both collective calls.\<close>

definition ncclFloatType :: "Type \<Rightarrow> ncclDataType_t" where
  "ncclFloatType t = (if t = float16 then ncclFloat16 else ncclFloat32)"

text \<open>
  The arguments of one collective call: the elements at the send pointer, the offset of the
  receive pointer in the device's own buffer, the element count, the element type, and the
  global rank the call's communicator \<^verbatim>\<open>comms_[i]\<close> was initialised with.
\<close>

record 'a ncclArgs =
  arg_sendbuff :: "'a list"
  arg_recvOffset :: nat
  arg_count :: nat
  arg_dtype :: ncclDataType_t
  arg_rank :: nat

text \<open>The loop \<^verbatim>\<open>for (i = 0; i < n; ++i)\<close> whose body may abort.\<close>

fun mapM_err :: "('x \<Rightarrow> error + 'y) \<Rightarrow> 'x list \<Rightarrow> error + 'y list" where
  "mapM_err f [] = Inr []"
| "mapM_err f (x # xs) =
     (case f x of
        Inl e \<Rightarrow> Inl e
      | Inr y \<Rightarrow> (case mapM_err f xs of Inl e \<Rightarrow> Inl e | Inr ys \<Rightarrow> Inr (y # ys)))"

text \<open>
  Modelled from the spec: the tensor class is not part of the communicator.  A subtensor is a
  read/write view over an index sub-range of a buffer; \<open>writeAt\<close> stores elements through
  the view that starts at \<open>off\<close>, and \<open>set\<close> on a view is \<open>writeAt\<close> with copies of one
  value.  The size of \<^verbatim>\<open>subtensor(begin, n)\<close> is \<open>n\<close>.
\<close>

definition writeAt :: "nat \<Rightarrow> 'a list \<Rightarrow> 'a list \<Rightarrow> 'a list" where
  "writeAt off xs buf = take off buf @ xs @ drop (off + length xs) buf"

text \<open>
  Modelled from the spec: the collective library is not part of the communicator.
  Reduce-scatter sums the send buffers of all global ranks element by element and leaves, at
  the receive pointer of rank \<open>r\<close>, block \<open>r\<close> of \<open>recvcount\<close> elements of that sum.
  All-gather reads \<open>sendcount\<close> elements at the send pointer of every rank and leaves their
  concatenation, ordered by global rank, at every receive pointer.
  \<open>sendbufs\<close> holds the elements at the send pointers of the group, by global rank.
  A buffer is the list of its elements, so the element type of a call, which tells the
  library the width of an element, is recorded in the call and not interpreted.
\<close>

definition ncclReduceScatter :: "('a::comm_monoid_add) list list \<Rightarrow> nat \<Rightarrow> nat \<Rightarrow> 'a list" where
  "ncclReduceScatter sendbufs recvcount r =
     map (\<lambda>j. sum_list (map (\<lambda>b. b ! (r * recvcount + j)) sendbufs)) [0..<recvcount]"

definition ncclAllGather :: "'a list list \<Rightarrow> nat \<Rightarrow> 'a list" where
  "ncclAllGather sendbufs sendcount = concat (map (take sendcount) sendbufs)"

subsection \<open>Reduce-scatter of the gradients\<close>

text \<open>The body of the loop of \<^verbatim>\<open>scatterReduceAndResetGrads\<close> up to the collective call.\<close>

definition scatterReduce_call :: "'a comm \<Rightarrow> nat \<Rightarrow> error + 'a ncclArgs" where
  "scatterReduce_call c i =
     (case localShardRange c i of
        Inl e \<Rightarrow> Inl e
      | Inr (shardBegin, shardEnd) \<Rightarrow>
          (case shardSize c of
             Inl e \<Rightarrow> Inl e
           | Inr bufsize \<Rightarrow>
               if shardEnd - shardBegin \<noteq> bufsize
               then Inl (Abort ''unexpected subtensor size??'')
               else Inr \<lparr>arg_sendbuff = data (grads (graphs c ! i)),
                         arg_recvOffset = shardBegin,
                         arg_count = bufsize,
                         arg_dtype = ncclFloatType (ttype (grads (graphs c ! i))),
                         arg_rank = myNcclRank c i\<rparr>))"

text \<open>The lambda \<^verbatim>\<open>resetGrads\<close>: it zeroes the gradients of device \<open>i\<close> outside the shard.\<close>

definition resetGrads :: "(bool, ('a::zero) graph list) ForeachFunc" where
  "resetGrads i shardBegin shardEnd gs =
     (let g = gs ! i;
          sz = length (data (grads g));
          d = data (grads g);
          d = (if shardBegin > 0 then writeAt 0 (replicate shardBegin 0) d else d);
          d = (if shardEnd < sz then writeAt shardEnd (replicate (sz - shardEnd) 0) d else d)
      in (True, gs[i := g\<lparr>grads := (grads g)\<lparr>data := d\<rparr>\<rparr>]))"

text \<open>
  \<open>groupBufs\<close> holds, by global rank, what the other ranks of the group pass as their send
  buffers; at the ranks of this process the group reads the send buffers of the calls issued
  here.  After \<^verbatim>\<open>groupEnd\<close> and \<^verbatim>\<open>synchronizeAll\<close> every local device has received its
  block at its receive pointer; then the gradients are reset through \<^verbatim>\<open>foreach\<close>, whose
  thread pool has the schedule \<open>prio\<close>.
\<close>

definition scatterReduceAndResetGrads ::
  "('a::comm_monoid_add) comm \<Rightarrow> 'a list list \<Rightarrow> (nat \<Rightarrow> nat) \<Rightarrow> error + 'a comm" where
  "scatterReduceAndResetGrads c groupBufs prio =
     (case mapM_err (scatterReduce_call c) [0..<length (graphs c)] of
        Inl e \<Rightarrow> Inl e
      | Inr calls \<Rightarrow>
          let sendbufs = foldl (\<lambda>bufs a. bufs[arg_rank a := arg_sendbuff a]) groupBufs calls;
              gs = map (\<lambda>(g, a).
                     g\<lparr>grads := (grads g)\<lparr>data :=
                        writeAt (arg_recvOffset a) (ncclReduceScatter sendbufs (arg_count a) (arg_rank a))
                          (data (grads g))\<rparr>\<rparr>)
                   (zip (graphs c) calls)
          in (case foreach (c\<lparr>graphs := gs\<rparr>) resetGrads True prio gs of
                Inl e \<Rightarrow> Inl e
              | Inr (_, gs') \<Rightarrow> Inr (c\<lparr>graphs := gs'\<rparr>)))"

subsection \<open>All-gather of the parameters\<close>

text \<open>
  The body of the loop of \<^verbatim>\<open>allGatherParams\<close> up to the collective call.  The send pointer
  is the address of element \<open>begin\<close> of the parameters, the receive pointer their start.
\<close>

definition allGather_call :: "'a comm \<Rightarrow> nat \<Rightarrow> error + 'a ncclArgs" where
  "allGather_call c i =
     (case localShardRange c i of
        Inl e \<Rightarrow> Inl e
      | Inr (shardBegin, shardEnd) \<Rightarrow>
          (case shardSize c of
             Inl e \<Rightarrow> Inl e
           | Inr bufsize \<Rightarrow>
               Inr \<lparr>arg_sendbuff = drop shardBegin (data (vals (graphs c ! i))),
                    arg_recvOffset = 0,
                    arg_count = bufsize,
                    arg_dtype = ncclFloatType (ttype (vals (graphs c ! i))),
                    arg_rank = myNcclRank c i\<rparr>))"

definition allGatherParams :: "'a comm \<Rightarrow> 'a list list \<Rightarrow> error + 'a comm" where
  "allGatherParams c groupBufs =
     (case mapM_err (allGather_call c) [0..<length (graphs c)] of
        Inl e \<Rightarrow> Inl e
      | Inr calls \<Rightarrow>
          Inr (c\<lparr>graphs := map (\<lambda>(g, a).
                     g\<lparr>vals := (vals g)\<lparr>data :=
                        writeAt (arg_recvOffset a) (ncclAllGather groupBufs (arg_count a)) (data (vals g))\<rparr>\<rparr>)
                   (zip (graphs c) calls)\<rparr>))"

section \<open>Optimizer state: scatter and gather\<close>

text \<open>
  \<^verbatim>\<open>scatterState\<close> calls the setter once per local device with two pointers into the bytes
  of the item.  The result lists these calls in order: the local device index and the offsets
  of the two pointers.  The division is by \<^verbatim>\<open>numNcclRanks()\<close>.
\<close>

definition scatterState :: "'a comm \<Rightarrow> 'b list \<Rightarrow> error + (nat \<times> nat \<times> nat) list" where
  "scatterState c bytes =
     (let dataSz = length bytes;
          numShards = numNcclRanks c
      in if numShards = 0 then Inl DivisionByZero
         else
           let shardSz = (dataSz + numShards - 1) div numShards in
           Inr (map (\<lambda>localDeviceIndex.
                  let ncclRank = myNcclRank c localDeviceIndex;
                      shardBegin = ncclRank * shardSz;
                      shardEnd = min (shardBegin + shardSz) dataSz
                  in (localDeviceIndex, shardBegin, shardEnd))
                [0..<length (graphs c)]))"

text \<open>
  Modelled from the spec: the optimizer's setter and getter are not part of the communicator.
  A shard is the half-open index range from \<open>begin\<close> to \<open>end\<close> of the buffer.  The setter
  keeps, for the device it is called for, the bytes of the buffer at the indices of the range
  between its two pointers; a range whose begin is not before its end has no index.  The
  getter of a device returns what the setter kept for it.
\<close>

definition byteRange :: "'b list \<Rightarrow> nat \<Rightarrow> nat \<Rightarrow> 'b list" where
  "byteRange bytes b e = take (e - b) (drop b bytes)"

text \<open>What the setters of a process keep, by local device index, after \<open>scatterState\<close>.\<close>

definition storedShards :: "'a comm \<Rightarrow> 'b list \<Rightarrow> error + (nat \<Rightarrow> 'b list)" where
  "storedShards c bytes =
     (case scatterState c bytes of
        Inl e \<Rightarrow> Inl e
      | Inr calls \<Rightarrow>
          Inr (foldl (\<lambda>kept (localDeviceIndex, b, e). kept(localDeviceIndex := byteRange bytes b e))
                 (\<lambda>localDeviceIndex. []) calls))"

text \<open>
  Modelled from the spec: the MPI wrapper is not part of the communicator.  After a broadcast
  every process holds the bytes of the root; \<open>peers r\<close> is what process \<open>r\<close> passes to the
  broadcast it is the root of.  An item is its bytes, and \<^verbatim>\<open>append\<close> concatenates them.
\<close>

definition bCast :: "(nat \<Rightarrow> 'b list) \<Rightarrow> nat \<Rightarrow> 'b list \<Rightarrow> nat \<Rightarrow> 'b list" where
  "bCast peers myRank tmp rootRank = (if rootRank = myRank then tmp else peers rootRank)"

text \<open>The first part of \<^verbatim>\<open>gatherState\<close>: the concatenation over the local devices.\<close>

definition gatherLocal :: "'a comm \<Rightarrow> (nat \<Rightarrow> 'b list) \<Rightarrow> 'b list" where
  "gatherLocal c getFn =
     foldl (\<lambda>localData localDeviceIndex. localData @ getFn localDeviceIndex)
       (getFn 0) [1..<length (graphs c)]"

text \<open>The loop over the MPI ranks; its state is \<^verbatim>\<open>data\<close> and \<^verbatim>\<open>tmp\<close>.\<close>

fun gatherState_loop ::
  "IMPIWrapper \<Rightarrow> 'b list \<Rightarrow> (nat \<Rightarrow> 'b list) \<Rightarrow> nat list \<Rightarrow> 'b list \<times> 'b list
     \<Rightarrow> 'b list \<times> 'b list" where
  "gatherState_loop m localData peers [] s = s"
| "gatherState_loop m localData peers (mpiRank # rs) (dat, tmp) =
     (let tmp = (if mpiRank = myMPIRank m then localData else tmp);
          tmp = bCast peers (myMPIRank m) tmp mpiRank;
          dat = (if mpiRank = 0 then tmp else dat @ tmp)
      in gatherState_loop m localData peers rs (dat, tmp))"

definition gatherState :: "'a comm \<Rightarrow> (nat \<Rightarrow> 'b list) \<Rightarrow> (nat \<Rightarrow> 'b list) \<Rightarrow> 'b list" where
  "gatherState c getFn peers =
     (let localData = gatherLocal c getFn in
      case mpi c of
        Some m \<Rightarrow> fst (gatherState_loop m localData peers [0..<numMPIProcesses m] ([], []))
      | None \<Rightarrow> localData)"

section \<open>Blocking a signal during the initialisation\<close>

text \<open>
  A signal set is a set of signal numbers.  \<^verbatim>\<open>pthread_sigmask\<close> and \<^verbatim>\<open>sigprocmask\<close>
  are the operating system's: with \<^verbatim>\<open>SIG_BLOCK\<close> the new mask is the union of the current
  mask and the set, with \<^verbatim>\<open>SIG_UNBLOCK\<close> the current mask without the set, with
  \<^verbatim>\<open>SIG_SETMASK\<close> the set; the mask before the call is stored through the third argument.
\<close>

type_synonym sigset_t = "int set"

datatype how = SIG_BLOCK | SIG_UNBLOCK | SIG_SETMASK

record sigState =
  threadMask :: sigset_t
  procMask :: sigset_t

type_synonym SigMaskFn = "how \<Rightarrow> sigset_t \<Rightarrow> sigState \<Rightarrow> sigState \<times> sigset_t"

definition changeMask :: "how \<Rightarrow> sigset_t \<Rightarrow> sigset_t \<Rightarrow> sigset_t" where
  "changeMask h sigs cur =
     (case h of SIG_BLOCK \<Rightarrow> cur \<union> sigs | SIG_UNBLOCK \<Rightarrow> cur - sigs | SIG_SETMASK \<Rightarrow> sigs)"

definition pthread_sigmask :: SigMaskFn where
  "pthread_sigmask h sigs st = (st\<lparr>threadMask := changeMask h sigs (threadMask st)\<rparr>, threadMask st)"

definition sigprocmask :: SigMaskFn where
  "sigprocmask h sigs st = (st\<lparr>procMask := changeMask h sigs (procMask st)\<rparr>, procMask st)"

text \<open>The helper class \<^verbatim>\<open>BlockSignal\<close>: its two members, its constructor, its destructor.\<close>

record BlockSignal =
  sigMaskFn :: SigMaskFn
  oldSigSet :: sigset_t

definition BlockSignal_ctor :: "int \<Rightarrow> SigMaskFn \<Rightarrow> sigState \<Rightarrow> BlockSignal \<times> sigState" where
  "BlockSignal_ctor signal fn st =
     (let newSigSet = {};
          newSigSet = insert signal newSigSet
      in case fn SIG_BLOCK newSigSet st of
           (st', old) \<Rightarrow> (\<lparr>sigMaskFn = fn, oldSigSet = old\<rparr>, st'))"

definition BlockSignal_dtor :: "BlockSignal \<Rightarrow> sigState \<Rightarrow> sigState" where
  "BlockSignal_dtor b st = fst (sigMaskFn b SIG_BLOCK (oldSigSet b) st)"

definition SIG_BAD :: int where
  "SIG_BAD = 27"

text \<open>
  The part of the constructor from the two \<^verbatim>\<open>BlockSignal\<close> objects to the end of their
  scope.  \<open>ncclSetup\<close> is the set-up of NCCL in between; the objects are destroyed in the
  reverse order of their construction.
\<close>

definition initNccl_blocked :: "(sigState \<Rightarrow> sigState) \<Rightarrow> sigState \<Rightarrow> sigState" where
  "initNccl_blocked ncclSetup st =
     (case BlockSignal_ctor SIG_BAD pthread_sigmask st of
        (blockThread, st) \<Rightarrow>
          (case BlockSignal_ctor SIG_BAD sigprocmask st of
             (blockProc, st) \<Rightarrow>
               BlockSignal_dtor blockThread (BlockSignal_dtor blockProc (ncclSetup st))))"

section \<open>The processes of a run\<close>

text \<open>
  A run is the list of the communicators of its processes, by MPI rank: every process has
  \<open>numDevices\<close> local devices and knows its rank and the number of processes; a run of one
  process may have no MPI.
\<close>

definition wf_world :: "'a comm list \<Rightarrow> nat \<Rightarrow> bool" where
  "wf_world w numDevices \<longleftrightarrow>
     w \<noteq> [] \<and> 0 < numDevices \<and>
     (\<forall>p<length w. length (graphs (w ! p)) = numDevices \<and>
        (mpi (w ! p) = Some \<lparr>myMPIRank = p, numMPIProcesses = length w\<rparr>
           \<or> length w = 1 \<and> mpi (w ! p) = None))"

text \<open>Every buffer of the run has \<open>dataSz\<close> elements of one of the two float types.\<close>

definition wf_buffers :: "'a comm list \<Rightarrow> nat \<Rightarrow> bool" where
  "wf_buffers w dataSz \<longleftrightarrow>
     (\<forall>c\<in>set w. \<forall>g\<in>set (graphs c).
        length (data (vals g)) = dataSz \<and> length (data (grads g)) = dataSz \<and>
        ttype (vals g) \<in> {float16, float32} \<and> ttype (grads g) \<in> {float16, float32})"

text \<open>
  The send buffers of the reduce-scatter of a run, by global rank: what the calls of the
  processes pass; none if a call aborts.
\<close>

definition groupGrads :: "'a comm list \<Rightarrow> 'a list list" where
  "groupGrads w =
     concat (map (\<lambda>c. case mapM_err (scatterReduce_call c) [0..<length (graphs c)] of
                        Inl e \<Rightarrow> []
                      | Inr calls \<Rightarrow> map arg_sendbuff calls) w)"

text \<open>The gradients of global rank \<open>r\<close> in a run with \<open>numDevices\<close> devices per process.\<close>

definition rankGrads :: "'a comm list \<Rightarrow> nat \<Rightarrow> nat \<Rightarrow> 'a list" where
  "rankGrads w numDevices r = data (grads (graphs (w ! (r div numDevices)) ! (r mod numDevices)))"

text \<open>The send buffers of the all-gather of a run, by global rank; none if a call aborts.\<close>

definition groupShards :: "'a comm list \<Rightarrow> 'a list list" where
  "groupShards w =
     concat (map (\<lambda>c. case mapM_err (allGather_call c) [0..<length (graphs c)] of
                        Inl e \<Rightarrow> []
                      | Inr calls \<Rightarrow> map arg_sendbuff calls) w)"

text \<open>
  The byte ranges the setters of all processes of a run are handed by \<open>scatterState\<close>, by
  global rank.
\<close>

definition setterRanges :: "'a comm list \<Rightarrow> 'b list \<Rightarrow> error + (nat \<times> nat) list" where
  "setterRanges w bytes =
     (case mapM_err (\<lambda>c. scatterState c bytes) w of
        Inl e \<Rightarrow> Inl e
      | Inr calls \<Rightarrow> Inr (map (\<lambda>(localDeviceIndex, b, e). (b, e)) (concat calls)))"

text \<open>
  Scatter of \<open>bytes\<close> on every process of a run, then gather on process \<open>p\<close> with getters
  that return what the setters kept.
\<close>

definition scatterThenGather :: "'a comm list \<Rightarrow> 'b list \<Rightarrow> nat \<Rightarrow> error + 'b list" where
  "scatterThenGather w bytes p =
     (case mapM_err (\<lambda>c. storedShards c bytes) w of
        Inl e \<Rightarrow> Inl e
      | Inr kept \<Rightarrow>
          Inr (gatherState (w ! p) (kept ! p) (\<lambda>q. gatherLocal (w ! q) (kept ! q))))"

section \<open>Example configurations\<close>

text \<open>Graphs and communicators with float32 buffers, used to run the definitions.\<close>

definition mkGraph :: "'a list \<Rightarrow> 'a list \<Rightarrow> 'a graph" where
  "mkGraph vs gs = \<lparr>vals = \<lparr>data = vs, ttype = float32\<rparr>, grads = \<lparr>data = gs, ttype = float32\<rparr>\<rparr>"

definition exampleComm :: "nat \<Rightarrow> nat \<Rightarrow> IMPIWrapper option \<Rightarrow> int comm" where
  "exampleComm numDevices dataSz m =
     \<lparr>graphs = replicate numDevices (mkGraph (replicate dataSz 0) (replicate dataSz 1)), mpi = m\<rparr>"

text \<open>A communicator whose buffers have a type that is neither \<open>float16\<close> nor \<open>float32\<close>.\<close>

definition otherTypeComm :: "int comm" where
  "otherTypeComm =
     \<lparr>graphs = [\<lparr>vals = \<lparr>data = [1, 2], ttype = otherType 8\<rparr>,
                  grads = \<lparr>data = [3, 4], ttype = otherType 8\<rparr>\<rparr>],
      mpi = None\<rparr>"

text \<open>A run of \<open>numProcs\<close> MPI processes with \<open>numDevices\<close> devices each.\<close>

definition exampleWorld :: "nat \<Rightarrow> nat \<Rightarrow> nat \<Rightarrow> int comm list" where
  "exampleWorld numProcs numDevices dataSz =
     map (\<lambda>p. exampleComm numDevices dataSz (Some \<lparr>myMPIRank = p, numMPIProcesses = numProcs\<rparr>))
       [0..<numProcs]"

text \<open>An item of seven bytes.\<close>

definition exampleBytes :: string where
  "exampleBytes = ''abcdefg''"

text \<open>A run of two processes with two devices each; every buffer has its own values.\<close>

definition seededWorld :: "int comm list" where
  "seededWorld =
     [\<lparr>graphs = [mkGraph [10, 11, 12, 13] [1, 1, 1, 1], mkGraph [20, 21, 22, 23] [1, 2, 3, 4]],
       mpi = Some \<lparr>myMPIRank = 0, numMPIProcesses = 2\<rparr>\<rparr>,
      \<lparr>graphs = [mkGraph [30, 31, 32, 33] [10, 10, 10, 10], mkGraph [40, 41, 42, 43] [100, 200, 300, 400]],
       mpi = Some \<lparr>myMPIRank = 1, numMPIProcesses = 2\<rparr>\<rparr>]"

section \<open>Properties of the shard planner\<close>

lemma ceil_div_exact: "0 < n \<Longrightarrow> (n * k + n - 1) div n = (k::nat)"
proof -
  assume n: "0 < n"
  have "n * k + n - 1 = (n - 1) + k * n" using n by (simp add: mult.commute)
  moreover have "((n - 1) + k * n) div n = k + (n - 1) div n"
    using n by (intro div_mult_self1) simp
  moreover have "(n - 1) div n = 0" using n by simp
  ultimately show ?thesis by simp
qed

lemma shardSize_uniform:
  assumes "dataSize c = Inr tot" "0 < numNcclRanks c" "numNcclRanks c dvd tot"
  shows "shardSize c = Inr (tot div numNcclRanks c)"
proof -
  from assms(3) obtain k where k: "tot = numNcclRanks c * k" by (elim dvdE)
  with assms(2) have "(tot + numNcclRanks c - 1) div numNcclRanks c = k"
    by (simp only: ceil_div_exact)
  with assms k show ?thesis by (simp add: shardSize_def Let_def)
qed

lemma shardSize_Inr_iff:
  "shardSize c = Inr s \<longleftrightarrow>
     (\<exists>tot. dataSize c = Inr tot \<and> 0 < numNcclRanks c \<and> s * numNcclRanks c = tot
        \<and> s = (tot + numNcclRanks c - 1) div numNcclRanks c)"
  by (auto simp: shardSize_def Let_def split: sum.splits if_splits)

lemma shardSize_uneven:
  assumes "dataSize c = Inr tot" "0 < numNcclRanks c" "\<not> numNcclRanks c dvd tot"
  shows "shardSize c = Inl (Abort ''presently, all shards must have the same size'')"
proof -
  have "((tot + numNcclRanks c - 1) div numNcclRanks c) * numNcclRanks c \<noteq> tot"
    using assms(3) by (metis dvd_triv_right)
  with assms show ?thesis by (simp add: shardSize_def Let_def)
qed

lemma unat_ceil_numerator:
  fixes d n :: "64 word"
  assumes "n \<noteq> 0" "unat d + unat n \<le> 2 ^ 64"
  shows "unat (d + n - 1) = unat d + unat n - 1"
proof -
  have n: "1 \<le> unat n" using assms(1) by (simp add: unat_gt_0 Suc_leI)
  then have "(of_nat (unat d + unat n - 1) :: 64 word) = of_nat (unat d + unat n) - 1"
    by (simp add: of_nat_diff)
  also have "\<dots> = d + n - 1" by simp
  finally have w: "(of_nat (unat d + unat n - 1) :: 64 word) = d + n - 1" .
  have "unat d + unat n - 1 < 2 ^ LENGTH(64)" using assms(2) n by simp
  with w show ?thesis by (rule of_nat_inverse)
qed

lemma shardSize64_nat:
  assumes "dataSize c = Inr (unat dataSz)" and "numNcclRanks c = unat numShards"
    and "unat dataSz + unat numShards \<le> 2 ^ 64"
  shows "shardSize c = map_sum id unat (shardSize64 dataSz numShards)"
proof (cases "numShards = 0")
  case True
  then show ?thesis using assms(1,2) by (simp add: shardSize_def shardSize64_def)
next
  case False
  let ?q = "(dataSz + numShards - 1) div numShards"
  have num: "unat (dataSz + numShards - 1) = unat dataSz + unat numShards - 1"
    using False assms(3) by (rule unat_ceil_numerator)
  have q: "unat ?q = (unat dataSz + unat numShards - 1) div unat numShards"
    by (simp add: unat_div num)
  have "unat ?q * unat numShards \<le> unat (dataSz + numShards - 1)"
    by (simp add: unat_div)
  also have "\<dots> < 2 ^ 64" using unsigned_less[of "dataSz + numShards - 1"] by simp
  finally have "unat ?q * unat numShards < 2 ^ LENGTH(64)" by simp
  then have "unat (?q * numShards) = unat ?q * unat numShards"
    by (simp only: unat_mult_lem)
  then have eq: "?q * numShards = dataSz \<longleftrightarrow> unat ?q * unat numShards = unat dataSz"
    by (simp add: word_unat_eq_iff)
  have n0: "unat numShards \<noteq> 0" using False by (simp add: unat_eq_zero)
  show ?thesis
    using assms(1,2) False n0 eq q
    by (simp add: shardSize_def shardSize64_def Let_def)
qed

lemma ceil_real: "0 < n \<Longrightarrow> n dvd tot \<Longrightarrow> nat \<lceil>real tot / real n\<rceil> = tot div n"
  by (auto elim!: dvdE)

lemma range_uniform:
  assumes "dataSize c = Inr tot" "0 < numNcclRanks c" "numNcclRanks c dvd tot"
      and "rank < numNcclRanks c"
  shows "ncclRankShardRange c rank =
           Inr (rank * (tot div numNcclRanks c), (rank + 1) * (tot div numNcclRanks c))"
proof -
  let ?n = "numNcclRanks c" and ?s = "tot div numNcclRanks c"
  have tot: "tot = ?n * ?s" using assms(3) by simp
  have "(rank + 1) * ?s \<le> ?n * ?s" using assms(4) by (intro mult_le_mono1) simp
  then have "(rank + 1) * ?s \<le> tot" using tot by simp
  then have "min (rank * ?s + ?s) tot = (rank + 1) * ?s" by simp
  then show ?thesis
    using shardSize_uniform[OF assms(1-3)] assms(1)
    by (simp add: ncclRankShardRange_def Let_def)
qed

lemma rangeSet_Inr [simp]: "rangeSet (Inr (b, e)) = {b..<e}"
  by (simp add: rangeSet_def)

lemma uniform_ranges_disjoint:
  fixes s :: nat
  assumes "r \<noteq> q"
  shows "{r * s..<(r + 1) * s} \<inter> {q * s..<(q + 1) * s} = {}"
proof -
  have *: "{a * s..<(a + 1) * s} \<inter> {b * s..<(b + 1) * s} = {}" if "a < b" for a b :: nat
  proof -
    from that have "(a + 1) * s \<le> b * s" by (intro mult_le_mono1) simp
    then show ?thesis by auto
  qed
  from assms consider "r < q" | "q < r" by linarith
  then show ?thesis
  proof cases
    case 1 then show ?thesis by (rule *)
  next
    case 2 then show ?thesis using *[of q r] by (simp add: Int_commute)
  qed
qed

lemma uniform_ranges_cover:
  fixes s :: nat
  shows "(\<Union>r<n. {r * s..<(r + 1) * s}) = {0..<n * s}"
proof (induction n)
  case 0
  show ?case by simp
next
  case (Suc n)
  have "(\<Union>r<Suc n. {r * s..<(r + 1) * s}) = {0..<n * s} \<union> {n * s..<(n + 1) * s}"
    using Suc.IH by (simp add: lessThan_Suc Un_commute)
  also have "\<dots> = {0..<Suc n * s}"
    by auto
  finally show ?case .
qed

text \<open>
  Claim C3.  When the number of global ranks divides the data size, \<open>shardSize\<close> is the
  ceiling of their quotient, the shard of every rank below the number of ranks is
  \<open>[rank * shardSize, min ((rank + 1) * shardSize) total)\<close>, the shards of distinct ranks are
  disjoint, together they are exactly \<open>[0, total)\<close>, and the shard sizes add up to the data
  size.
\<close>

theorem shard_ranges_partition:
  assumes "dataSize c = Inr tot" and "numNcclRanks c = n" and "0 < n" and "n dvd tot"
  shows "\<exists>s. shardSize c = Inr s \<and> s = nat \<lceil>real tot / real n\<rceil>
           \<and> (\<forall>rank<n. ncclRankShardRange c rank = Inr (rank * s, min ((rank + 1) * s) tot))
           \<and> (\<forall>r<n. \<forall>q<n. r \<noteq> q \<longrightarrow>
                 rangeSet (ncclRankShardRange c r) \<inter> rangeSet (ncclRankShardRange c q) = {})
           \<and> (\<Union>r<n. rangeSet (ncclRankShardRange c r)) = {0..<tot}
           \<and> (\<Sum>r<n. s) = tot
           \<and> (\<Sum>r<n. card (rangeSet (ncclRankShardRange c r))) = tot"
proof -
  define s where "s = tot div n"
  have n: "0 < numNcclRanks c" "numNcclRanks c dvd tot" using assms by simp_all
  have tot: "n * s = tot" using assms(4) by (simp add: s_def)
  have size: "shardSize c = Inr s"
    using shardSize_uniform[OF assms(1) n] assms(2) by (simp add: s_def)
  have ceil: "s = nat \<lceil>real tot / real n\<rceil>"
    using ceil_real[OF assms(3,4)] by (simp add: s_def)
  have range: "ncclRankShardRange c rank = Inr (rank * s, (rank + 1) * s)" if "rank < n" for rank
    using range_uniform[OF assms(1) n, of rank] that assms(2) by (simp add: s_def)
  have clip: "min ((rank + 1) * s) tot = (rank + 1) * s" if "rank < n" for rank
  proof -
    from that have "(rank + 1) * s \<le> n * s" by (intro mult_le_mono1) simp
    then show ?thesis using tot by simp
  qed
  have disj: "rangeSet (ncclRankShardRange c r) \<inter> rangeSet (ncclRankShardRange c q) = {}"
    if "r < n" "q < n" "r \<noteq> q" for r q
    using that uniform_ranges_disjoint[of r q s] by (simp add: range)
  have "(\<Union>r<n. rangeSet (ncclRankShardRange c r)) = (\<Union>r<n. {r * s..<(r + 1) * s})"
    by (intro SUP_cong refl) (simp add: range)
  also have "\<dots> = {0..<n * s}" by (rule uniform_ranges_cover)
  finally have cover: "(\<Union>r<n. rangeSet (ncclRankShardRange c r)) = {0..<tot}"
    using tot by simp
  have "(\<Sum>r<n. card (rangeSet (ncclRankShardRange c r))) = (\<Sum>r<n. s)"
    by (intro sum.cong refl) (simp add: range)
  then have sum: "(\<Sum>r<n. card (rangeSet (ncclRankShardRange c r))) = tot"
    using tot by simp
  show ?thesis
    using size ceil range clip disj cover sum tot by (intro exI[of _ s]) simp
qed

lemma ex_dataSize: "dataSize (exampleComm (Suc d) k m) = Inr k"
  by (simp add: dataSize_def exampleComm_def mkGraph_def)

theorem shard_ranges_partition_witness:
  "shardSize (exampleComm 3 12 None) = Inr 4
     \<and> ncclRankShardRange (exampleComm 3 12 None) 0 = Inr (0, 4)
     \<and> ncclRankShardRange (exampleComm 3 12 None) 1 = Inr (4, 8)
     \<and> ncclRankShardRange (exampleComm 3 12 None) 2 = Inr (8, 12)
     \<and> rangeSet (ncclRankShardRange (exampleComm 3 12 None) 0)
          \<inter> rangeSet (ncclRankShardRange (exampleComm 3 12 None) 2) = {}
     \<and> (\<Union>r<3. rangeSet (ncclRankShardRange (exampleComm 3 12 None) r)) = {0..<12}"
proof -
  have d: "dataSize (exampleComm 3 12 None) = Inr 12"
    by (simp add: dataSize_def exampleComm_def mkGraph_def numeral_3_eq_3)
  have n: "numNcclRanks (exampleComm 3 12 None) = 3"
    by (simp add: numNcclRanks_def exampleComm_def)
  have c: "nat \<lceil>real 12 / real 3\<rceil> = 4" by simp
  from shard_ranges_partition[OF d n] c show ?thesis
    by auto
qed

text \<open>
  Claim C4.  When the number of global ranks does not divide the data size, \<open>shardSize\<close>
  aborts, and with it every computation of a shard range.  Ten elements on three ranks abort;
  twelve elements on three ranks give shards of four elements, \<open>[0, 4)\<close>, \<open>[4, 8)\<close> and
  \<open>[8, 12)\<close> (both are run after the theorem).
\<close>

theorem shardSize_uneven_aborts:
  assumes "dataSize c = Inr tot" and "numNcclRanks c = n" and "0 < n" and "\<not> n dvd tot"
  shows "shardSize c = Inl (Abort ''presently, all shards must have the same size'')
           \<and> ncclRankShardRange c rank = Inl (Abort ''presently, all shards must have the same size'')
           \<and> localShardRange c i = Inl (Abort ''presently, all shards must have the same size'')"
proof -
  have "shardSize c = Inl (Abort ''presently, all shards must have the same size'')"
    using shardSize_uneven[OF assms(1)] assms(2-4) by simp
  then show ?thesis
    by (simp add: ncclRankShardRange_def localShardRange_def)
qed

theorem shardSize_uneven_aborts_witness:
  "shardSize (exampleComm 3 10 None) = Inl (Abort ''presently, all shards must have the same size'')
     \<and> ncclRankShardRange (exampleComm 3 10 None) 0
          = Inl (Abort ''presently, all shards must have the same size'')
     \<and> shardSize (exampleComm 3 12 None) = Inr 4
     \<and> map (ncclRankShardRange (exampleComm 3 12 None)) [0, 1, 2]
          = [Inr (0, 4), Inr (4, 8), Inr (8, 12)]"
proof -
  have d: "dataSize (exampleComm 3 10 None) = Inr 10"
    by (simp add: dataSize_def exampleComm_def mkGraph_def numeral_3_eq_3)
  have n: "numNcclRanks (exampleComm 3 10 None) = 3"
    by (simp add: numNcclRanks_def exampleComm_def)
  have u: "0 < (3::nat)" "\<not> (3::nat) dvd 10" by simp_all
  have d12: "dataSize (exampleComm 3 12 None) = Inr 12"
    by (simp add: dataSize_def exampleComm_def mkGraph_def numeral_3_eq_3)
  have n12: "numNcclRanks (exampleComm 3 12 None) = 3"
    by (simp add: numNcclRanks_def exampleComm_def)
  have s12: "shardSize (exampleComm 3 12 None) = Inr 4"
    by (simp add: shardSize_def d12 n12)
  from shardSize_uneven_aborts[OF d n u, of 0 0] s12 d12 show ?thesis
    by (simp add: ncclRankShardRange_def)
qed

section \<open>Properties of the signal guard\<close>

lemma BlockSignal_thread_scope:
  "BlockSignal_dtor (fst (BlockSignal_ctor s pthread_sigmask st)) st'
     = st'\<lparr>threadMask := threadMask st' \<union> threadMask st\<rparr>"
  by (simp add: BlockSignal_dtor_def BlockSignal_ctor_def pthread_sigmask_def changeMask_def)

lemma initNccl_blocked_masks:
  "initNccl_blocked (\<lambda>s. s) st
     = \<lparr>threadMask = insert SIG_BAD (threadMask st), procMask = insert SIG_BAD (procMask st)\<rparr>"
  by (auto simp: initNccl_blocked_def BlockSignal_dtor_def BlockSignal_ctor_def
      pthread_sigmask_def sigprocmask_def changeMask_def)

lemma initNccl_blocked_restores_iff:
  "initNccl_blocked (\<lambda>s. s) st = st \<longleftrightarrow> SIG_BAD \<in> threadMask st \<and> SIG_BAD \<in> procMask st"
  by (cases st) (auto simp: initNccl_blocked_masks)

text \<open>
  Claim C9.  The destructor of \<^verbatim>\<open>BlockSignal\<close> is commented as restoring the old signal
  mask, but it passes the old mask with \<^verbatim>\<open>SIG_BLOCK\<close>, which adds it to the current mask.
  Started with no signal blocked, the scope of the two guards ends with signal 27 blocked in
  both masks, so the masks are not the ones that were in effect before.
\<close>

theorem blockSignal_leaves_signal_blocked:
  "initNccl_blocked (\<lambda>s. s) \<lparr>threadMask = {}, procMask = {}\<rparr> = \<lparr>threadMask = {27}, procMask = {27}\<rparr>
     \<and> initNccl_blocked (\<lambda>s. s) \<lparr>threadMask = {}, procMask = {}\<rparr> \<noteq> \<lparr>threadMask = {}, procMask = {}\<rparr>"
  by (simp add: initNccl_blocked_def BlockSignal_dtor_def BlockSignal_ctor_def
      pthread_sigmask_def sigprocmask_def changeMask_def SIG_BAD_def)

section \<open>Properties of the element type selection\<close>

lemma localShardRange_Inr_shardSize:
  "localShardRange c i = Inr r \<Longrightarrow> \<exists>s. shardSize c = Inr s"
  by (auto simp: localShardRange_def ncclRankShardRange_def split: sum.splits)

text \<open>
  Claim C8, as amended.  For both collective calls the element type handed to the library is
  \<open>ncclFloat16\<close> when the buffer's type is \<open>float16\<close> and \<open>ncclFloat32\<close> for every other
  type.  The selection never fails: a reduce-scatter call aborts only through the shard
  computation or the check of the subtensor size, an all-gather call only through the shard
  computation.
\<close>

theorem ncclFloatType_selection:
  "(scatterReduce_call c i = Inr a \<longrightarrow>
      arg_dtype a = (if ttype (grads (graphs c ! i)) = float16 then ncclFloat16 else ncclFloat32))
   \<and> (allGather_call c i = Inr a' \<longrightarrow>
      arg_dtype a' = (if ttype (vals (graphs c ! i)) = float16 then ncclFloat16 else ncclFloat32))
   \<and> (scatterReduce_call c i = Inl e \<longrightarrow>
      localShardRange c i = Inl e \<or> e = Abort ''unexpected subtensor size??'')
   \<and> (allGather_call c i = Inl e' \<longrightarrow> localShardRange c i = Inl e')"
  by (auto simp: scatterReduce_call_def allGather_call_def ncclFloatType_def
      split: sum.splits if_splits dest: localShardRange_Inr_shardSize)

theorem ncclFloatType_selection_witness:
  "scatterReduce_call (exampleComm 3 12 None) 2
     = Inr \<lparr>arg_sendbuff = replicate 12 1, arg_recvOffset = 8, arg_count = 4,
            arg_dtype = ncclFloat32, arg_rank = 2\<rparr>
   \<and> arg_dtype \<lparr>arg_sendbuff = replicate 12 (1::int), arg_recvOffset = 8, arg_count = 4,
            arg_dtype = ncclFloat32, arg_rank = 2\<rparr>
       = (if ttype (grads (graphs (exampleComm 3 12 None) ! 2)) = float16 then ncclFloat16 else ncclFloat32)"
proof -
  have d12: "dataSize (exampleComm 3 12 None) = Inr 12"
    by (simp add: dataSize_def exampleComm_def mkGraph_def numeral_3_eq_3)
  have n12: "numNcclRanks (exampleComm 3 12 None) = 3"
    by (simp add: numNcclRanks_def exampleComm_def)
  have s12: "shardSize (exampleComm 3 12 None) = Inr 4"
    by (simp add: shardSize_def d12 n12)
  have m: "myNcclRank (exampleComm 3 12 None) i = i" for i
    by (simp add: myNcclRank_def exampleComm_def)
  have r: "localShardRange (exampleComm 3 12 None) 2 = Inr (8, 12)"
    by (simp add: localShardRange_def ncclRankShardRange_def s12 d12 m)
  have g: "graphs (exampleComm 3 12 None) ! 2 = mkGraph (replicate 12 0) (replicate 12 1)"
    by (simp add: exampleComm_def)
  have c: "scatterReduce_call (exampleComm 3 12 None) 2
     = Inr \<lparr>arg_sendbuff = replicate 12 1, arg_recvOffset = 8, arg_count = 4,
            arg_dtype = ncclFloat32, arg_rank = 2\<rparr>"
    by (simp add: scatterReduce_call_def r s12 g mkGraph_def ncclFloatType_def m)
  from ncclFloatType_selection[where c = "exampleComm 3 12 None" and i = 2
      and a = "\<lparr>arg_sendbuff = replicate 12 1, arg_recvOffset = 8, arg_count = 4,
            arg_dtype = ncclFloat32, arg_rank = 2\<rparr>"] c
  show ?thesis by simp
qed

text \<open>
  Claim C8 as stated fails: buffers of a type that is neither \<open>float16\<close> nor \<open>float32\<close>
  cause no error.  Both calls are issued with \<open>ncclFloat32\<close>, and both operations return
  (on one device with two elements the buffers are as before).
\<close>

theorem unsupported_precision_no_error:
  "ttype (grads (graphs otherTypeComm ! 0)) \<notin> {float16, float32}
   \<and> ttype (vals (graphs otherTypeComm ! 0)) \<notin> {float16, float32}
   \<and> scatterReduce_call otherTypeComm 0
     = Inr \<lparr>arg_sendbuff = [3, 4], arg_recvOffset = 0, arg_count = 2,
            arg_dtype = ncclFloat32, arg_rank = 0\<rparr>
   \<and> allGather_call otherTypeComm 0
     = Inr \<lparr>arg_sendbuff = [1, 2], arg_recvOffset = 0, arg_count = 2,
            arg_dtype = ncclFloat32, arg_rank = 0\<rparr>
   \<and> scatterReduceAndResetGrads otherTypeComm (groupGrads [otherTypeComm]) (\<lambda>i. i) = Inr otherTypeComm
   \<and> allGatherParams otherTypeComm (groupShards [otherTypeComm]) = Inr otherTypeComm"
proof -
  have d: "dataSize otherTypeComm = Inr 2"
    by (simp add: dataSize_def otherTypeComm_def)
  have n: "numNcclRanks otherTypeComm = 1"
    by (simp add: numNcclRanks_def otherTypeComm_def)
  have s: "shardSize otherTypeComm = Inr 2"
    by (simp add: shardSize_def d n)
  have m: "myNcclRank otherTypeComm 0 = 0"
    by (simp add: myNcclRank_def otherTypeComm_def)
  have r: "localShardRange otherTypeComm 0 = Inr (0, 2)"
    by (simp add: localShardRange_def ncclRankShardRange_def s d m)
  have g: "graphs otherTypeComm ! 0 = \<lparr>vals = \<lparr>data = [1, 2], ttype = otherType 8\<rparr>,
                  grads = \<lparr>data = [3, 4], ttype = otherType 8\<rparr>\<rparr>"
    by (simp add: otherTypeComm_def)
  have calls: "scatterReduce_call otherTypeComm 0
     = Inr \<lparr>arg_sendbuff = [3, 4], arg_recvOffset = 0, arg_count = 2,
            arg_dtype = ncclFloat32, arg_rank = 0\<rparr>"
    "allGather_call otherTypeComm 0
     = Inr \<lparr>arg_sendbuff = [1, 2], arg_recvOffset = 0, arg_count = 2,
            arg_dtype = ncclFloat32, arg_rank = 0\<rparr>"
    by (simp_all add: scatterReduce_call_def allGather_call_def r s ncclFloatType_def m g)
  have sr: "scatterReduceAndResetGrads otherTypeComm (groupGrads [otherTypeComm]) (\<lambda>i. i) = Inr otherTypeComm"
    by code_simp
  have ag: "allGatherParams otherTypeComm (groupShards [otherTypeComm]) = Inr otherTypeComm"
    by code_simp
  show ?thesis
    using calls sr ag by (simp add: g)
qed

section \<open>Properties of scatterState\<close>

lemma wf_world_ranks:
  assumes "wf_world w D" "p < length w"
  shows "numNcclRanks (w ! p) = length w * D"
    and "myNcclRank (w ! p) i = p * D + i"
    and "length (graphs (w ! p)) = D"
  using assms by (auto simp: wf_world_def numNcclRanks_def myNcclRank_def)

lemma wf_world_pos:
  assumes "wf_world w D"
  shows "0 < length w * D"
  using assms by (auto simp: wf_world_def)

lemma mapM_err_map: "mapM_err f (map g xs) = mapM_err (\<lambda>x. f (g x)) xs"
  by (induction xs) (simp_all split: sum.splits)

lemma mapM_err_Inr:
  assumes "\<And>x. x \<in> set xs \<Longrightarrow> f x = Inr (g x)"
  shows "mapM_err f xs = Inr (map g xs)"
  using assms by (induction xs) simp_all

lemma ceil_div_ge: "0 < n \<Longrightarrow> t \<le> ((t + n - 1) div n) * (n::nat)"
proof -
  assume n: "0 < n"
  have "t + n - 1 = ((t + n - 1) div n) * n + (t + n - 1) mod n" by simp
  moreover have "(t + n - 1) mod n < n" using n by simp
  ultimately show ?thesis using n by linarith
qed

lemma ceil_div_real:
  assumes n: "0 < n"
  shows "(t + n - 1) div n = nat \<lceil>real t / real n\<rceil>"
proof -
  define q where "q = (t + n - 1) div n"
  have "q * n \<le> t + n - 1" by (simp add: q_def)
  then have "q * n < t + n" using n by linarith
  then have "real (q * n) < real (t + n)" by (simp only: of_nat_less_iff)
  then have "(real q - 1) * real n < real t" by (simp add: algebra_simps)
  then have lo: "real_of_int (int q) - 1 < real t / real n"
    using n by (simp add: pos_less_divide_eq)
  have "t \<le> q * n" unfolding q_def using n by (rule ceil_div_ge)
  then have "real t \<le> real (q * n)" by (simp only: of_nat_le_iff)
  then have hi: "real t / real n \<le> real_of_int (int q)"
    using n by (simp add: pos_divide_le_eq)
  have "\<lceil>real t / real n\<rceil> = int q" using lo hi by (rule ceiling_unique)
  then show ?thesis by (simp add: q_def)
qed

lemma concat_blocks:
  "concat (map (\<lambda>p. map (\<lambda>i. h (p * D + i)) [0..<D]) [0..<P]) = map h [0..<P * D]"
proof (induction P)
  case 0
  show ?case by simp
next
  case (Suc P)
  have "map (\<lambda>i. h (P * D + i)) [0..<D] = map (h \<circ> (\<lambda>i. i + P * D)) [0..<D]"
    by (rule map_cong) (simp_all add: add.commute)
  also have "\<dots> = map h (map (\<lambda>i. i + P * D) [0..<D])"
    by (simp only: map_map)
  also have "map (\<lambda>i. i + P * D) [0..<D] = [P * D..<D + P * D]"
    by (rule map_add_upt)
  finally have blk: "map (\<lambda>i. h (P * D + i)) [0..<D] = map h [P * D..<P * D + D]"
    by (simp only: add.commute)
  have "[0..<P * D + D] = [0..<P * D] @ [P * D..<P * D + D]"
    by (rule upt_add_eq_append) simp
  moreover have "Suc P * D = P * D + D" by simp
  ultimately have "map h [0..<Suc P * D] = map h [0..<P * D] @ map h [P * D..<P * D + D]"
    by (simp only: map_append)
  moreover have "concat (map (\<lambda>p. map (\<lambda>i. h (p * D + i)) [0..<D]) [0..<Suc P])
      = concat (map (\<lambda>p. map (\<lambda>i. h (p * D + i)) [0..<D]) [0..<P]) @ map (\<lambda>i. h (P * D + i)) [0..<D]"
    by simp
  ultimately show ?case using Suc.IH blk by (simp only:)
qed

lemma scatterState_wf:
  assumes "wf_world w D" "p < length w"
  shows "scatterState (w ! p) bytes =
           Inr (map (\<lambda>i. (i, (p * D + i) * ((length bytes + length w * D - 1) div (length w * D)),
                           min ((p * D + i) * ((length bytes + length w * D - 1) div (length w * D))
                                  + (length bytes + length w * D - 1) div (length w * D))
                               (length bytes)))
                  [0..<D])"
  using wf_world_ranks[OF assms] wf_world_pos[OF assms(1)]
  by (simp add: scatterState_def Let_def)

lemma setterRanges_wf:
  assumes "wf_world w D"
  shows "setterRanges w bytes =
           Inr (map (\<lambda>r. (r * ((length bytes + length w * D - 1) div (length w * D)),
                          min (r * ((length bytes + length w * D - 1) div (length w * D))
                                 + (length bytes + length w * D - 1) div (length w * D))
                              (length bytes)))
                  [0..<length w * D])"
proof -
  let ?sz = "(length bytes + length w * D - 1) div (length w * D)"
  let ?h = "\<lambda>r. (r * ?sz, min (r * ?sz + ?sz) (length bytes))"
  let ?g = "\<lambda>p. map (\<lambda>i. (i, (p * D + i) * ?sz, min ((p * D + i) * ?sz + ?sz) (length bytes))) [0..<D]"
  have "mapM_err (\<lambda>p. scatterState (w ! p) bytes) [0..<length w] = Inr (map ?g [0..<length w])"
    by (rule mapM_err_Inr) (simp add: scatterState_wf[OF assms])
  moreover have "mapM_err (\<lambda>c. scatterState c bytes) (map (\<lambda>p. w ! p) [0..<length w])
      = mapM_err (\<lambda>p. scatterState (w ! p) bytes) [0..<length w]"
    by (induction "[0..<length w]") (simp_all add: mapM_err_map)
  ultimately have m: "mapM_err (\<lambda>c. scatterState c bytes) w = Inr (map ?g [0..<length w])"
    by (simp add: map_nth)
  have "map (\<lambda>(localDeviceIndex, b, e). (b, e)) (concat (map ?g [0..<length w]))
      = concat (map (\<lambda>p. map (\<lambda>i. ?h (p * D + i)) [0..<D]) [0..<length w])"
    by (simp add: map_concat comp_def)
  also have "\<dots> = map ?h [0..<length w * D]" by (rule concat_blocks)
  finally show ?thesis using m by (simp add: setterRanges_def)
qed

lemma clipped_ranges_ascend:
  fixes sz L :: nat
  assumes "r < q"
  shows "min (r * sz + sz) L \<le> q * sz"
proof -
  from assms have "(r + 1) * sz \<le> q * sz" by (intro mult_le_mono1) simp
  then show ?thesis by simp
qed

lemma clipped_ranges_cover:
  fixes sz L N :: nat
  assumes "L \<le> N * sz"
  shows "(\<Union>r<N. {r * sz..<min (r * sz + sz) L}) = {0..<L}"
proof (intro equalityI subsetI)
  fix x assume "x \<in> (\<Union>r<N. {r * sz..<min (r * sz + sz) L})"
  then show "x \<in> {0..<L}" by auto
next
  fix x assume "x \<in> {0..<L}"
  then have x: "x < L" by simp
  with assms have "x < N * sz" by simp
  then have sz: "0 < sz" by (cases sz) simp_all
  have r: "x div sz < N" using \<open>x < N * sz\<close> sz
    by (simp add: less_mult_imp_div_less)
  have "(x div sz) * sz \<le> x" by simp
  moreover have "x < (x div sz) * sz + sz" using sz
    by (metis div_mult_mod_eq mod_less_divisor add_less_cancel_left)
  ultimately have "x \<in> {(x div sz) * sz..<min ((x div sz) * sz + sz) L}" using x by simp
  with r show "x \<in> (\<Union>r<N. {r * sz..<min (r * sz + sz) L})" by blast
qed

lemma clipped_ranges_wellformed:
  fixes sz L N :: nat
  assumes "0 < N" "L \<le> N * sz"
  shows "(N - 1) * sz \<le> L \<longleftrightarrow> (\<forall>r<N. r * sz \<le> min (r * sz + sz) L)"
proof
  assume c: "(N - 1) * sz \<le> L"
  show "\<forall>r<N. r * sz \<le> min (r * sz + sz) L"
  proof (intro allI impI)
    fix r assume "r < N"
    then have "r \<le> N - 1" by simp
    then have "r * sz \<le> (N - 1) * sz" by (rule mult_le_mono1)
    with c have "r * sz \<le> L" by linarith
    then show "r * sz \<le> min (r * sz + sz) L" by simp
  qed
next
  assume "\<forall>r<N. r * sz \<le> min (r * sz + sz) L"
  with assms(1) have "(N - 1) * sz \<le> min ((N - 1) * sz + sz) L" by simp
  then show "(N - 1) * sz \<le> L" by simp
qed

text \<open>
  Claim C10.  \<open>scatterState\<close> has no check of even division and does not fail on a run
  with at least one device per process.  Its shard size is the ceiling of the data size over
  the number of global ranks, and global rank \<open>r\<close> is handed the range from
  \<open>r * shardSize\<close>, which is not clipped, to \<open>min (r * shardSize + shardSize) dataSize\<close>.
  When \<open>(numShards - 1) * shardSize \<le> dataSize\<close>, every range is a range of the buffer
  (its begin is not behind its end), the ranges ascend with the global rank, they are
  pairwise disjoint, and together they are exactly \<open>[0, dataSize)\<close>.
\<close>

theorem scatterState_ranges:
  fixes w :: "'a comm list" and bytes :: "'b list" and D :: nat
  defines "rs \<equiv> projr (setterRanges w bytes)"
    and "N \<equiv> length w * D"
    and "sz \<equiv> nat \<lceil>real (length bytes) / real (length w * D)\<rceil>"
  assumes "wf_world w D"
  shows "\<not> isl (setterRanges w bytes)
           \<and> length rs = N
           \<and> (\<forall>r<N. rs ! r = (r * sz, min (r * sz + sz) (length bytes)))
           \<and> ((N - 1) * sz \<le> length bytes \<longrightarrow>
                (\<forall>r<N. fst (rs ! r) \<le> snd (rs ! r) \<and> snd (rs ! r) \<le> length bytes)
              \<and> (\<forall>r<N. \<forall>q<N. r < q \<longrightarrow>
                    fst (rs ! r) \<le> fst (rs ! q) \<and> snd (rs ! r) \<le> fst (rs ! q))
              \<and> (\<forall>r<N. \<forall>q<N. r \<noteq> q \<longrightarrow>
                    {fst (rs ! r)..<snd (rs ! r)} \<inter> {fst (rs ! q)..<snd (rs ! q)} = {})
              \<and> (\<Union>r<N. {fst (rs ! r)..<snd (rs ! r)}) = {0..<length bytes})"
proof -
  let ?L = "length bytes"
  have N: "0 < length w * D" using assms(4) by (rule wf_world_pos)
  have sz: "sz = (?L + length w * D - 1) div (length w * D)"
    unfolding sz_def using N by (rule ceil_div_real[symmetric])
  have run: "setterRanges w bytes = Inr (map (\<lambda>r. (r * sz, min (r * sz + sz) ?L)) [0..<N])"
    using setterRanges_wf[OF assms(4), of bytes] by (simp only: sz N_def)
  then have rs: "rs = map (\<lambda>r. (r * sz, min (r * sz + sz) ?L)) [0..<N]"
    by (simp add: rs_def)
  have ok: "\<not> isl (setterRanges w bytes)" using run by simp
  have len: "length rs = N" by (simp add: rs)
  have nth: "rs ! r = (r * sz, min (r * sz + sz) ?L)" if "r < N" for r
    using that by (simp add: rs)
  have L: "?L \<le> N * sz" using ceil_div_ge[OF N, of ?L] by (simp only: sz N_def mult.commute)
  have asc: "fst (rs ! r) \<le> fst (rs ! q) \<and> snd (rs ! r) \<le> fst (rs ! q)"
    if "r < N" "q < N" "r < q" for r q
  proof -
    from that(3) have "r * sz \<le> q * sz" by (intro mult_le_mono1) simp
    with clipped_ranges_ascend[OF that(3), of sz ?L] show ?thesis
      using that by (simp only: nth fst_conv snd_conv)
  qed
  have disj: "{fst (rs ! r)..<snd (rs ! r)} \<inter> {fst (rs ! q)..<snd (rs ! q)} = {}"
    if "r < N" "q < N" "r \<noteq> q" for r q
  proof -
    from that(3) consider "r < q" | "q < r" by linarith
    then show ?thesis
    proof cases
      case 1
      with asc[OF that(1,2)] show ?thesis by auto
    next
      case 2
      with asc[OF that(2,1)] show ?thesis by auto
    qed
  qed
  have "(\<Union>r<N. {fst (rs ! r)..<snd (rs ! r)}) = (\<Union>r<N. {r * sz..<min (r * sz + sz) ?L})"
    by (intro SUP_cong refl) (simp add: nth)
  also have "\<dots> = {0..<?L}" using L by (rule clipped_ranges_cover)
  finally have cover: "(\<Union>r<N. {fst (rs ! r)..<snd (rs ! r)}) = {0..<?L}" .
  have wellf: "fst (rs ! r) \<le> snd (rs ! r) \<and> snd (rs ! r) \<le> ?L"
    if "(N - 1) * sz \<le> ?L" "r < N" for r
  proof -
    have "0 < N" using N by (simp only: N_def)
    from clipped_ranges_wellformed[OF this L] that show ?thesis by (simp add: nth)
  qed
  show ?thesis
    using ok len nth asc disj cover wellf by blast
qed

lemma wf_exampleWorld:
  assumes "0 < P" "0 < D"
  shows "wf_world (exampleWorld P D k) D"
  using assms by (auto simp: wf_world_def exampleWorld_def exampleComm_def)

lemma wf_exampleComm_None:
  assumes "0 < D"
  shows "wf_world [exampleComm D k None] D"
  using assms by (simp add: wf_world_def exampleComm_def)

theorem scatterState_ranges_witness:
  "wf_world (exampleWorld 2 2 4) 2
     \<and> (length (exampleWorld 2 2 4) * 2 - 1)
           * nat \<lceil>real (length exampleBytes) / real (length (exampleWorld 2 2 4) * 2)\<rceil>
         \<le> length exampleBytes
     \<and> \<not> isl (setterRanges (exampleWorld 2 2 4) exampleBytes)
     \<and> projr (setterRanges (exampleWorld 2 2 4) exampleBytes) ! 0 = (0, 2)
     \<and> projr (setterRanges (exampleWorld 2 2 4) exampleBytes) ! 2 = (4, 6)
     \<and> projr (setterRanges (exampleWorld 2 2 4) exampleBytes) ! 3 = (6, 7)
     \<and> (\<Union>r<4. {fst (projr (setterRanges (exampleWorld 2 2 4) exampleBytes) ! r)..<
                  snd (projr (setterRanges (exampleWorld 2 2 4) exampleBytes) ! r)}) = {0..<7}"
proof -
  have wf: "wf_world (exampleWorld 2 2 4) 2"
    by (rule wf_exampleWorld) simp_all
  have len: "length (exampleWorld 2 2 4) * 2 = 4"
    by (simp add: exampleWorld_def)
  have L: "length exampleBytes = 7"
    by (simp add: exampleBytes_def)
  have c: "nat \<lceil>real (7::nat) / real (4::nat)\<rceil> = 2"
    by (simp add: ceiling_eq_iff)
  note t = scatterState_ranges[OF wf, of exampleBytes, unfolded len L c]
  have cond: "(4 - 1) * 2 \<le> (7::nat)" by simp
  note ok = t[THEN conjunct1]
  note nth = t[THEN conjunct2, THEN conjunct2, THEN conjunct1, rule_format]
  note cover = t[THEN conjunct2, THEN conjunct2, THEN conjunct2, rule_format, OF cond,
      THEN conjunct2, THEN conjunct2, THEN conjunct2]
  have n0: "projr (setterRanges (exampleWorld 2 2 4) exampleBytes) ! 0 = (0, 2)"
    using nth[of 0] by simp
  have n2: "projr (setterRanges (exampleWorld 2 2 4) exampleBytes) ! 2 = (4, 6)"
    using nth[of 2] by simp
  have n3: "projr (setterRanges (exampleWorld 2 2 4) exampleBytes) ! 3 = (6, 7)"
    using nth[of 3] by simp
  show ?thesis
    unfolding len L c using wf ok n0 n2 n3 cover by simp
qed

section \<open>Scatter followed by gather\<close>

lemma foldl_append_concat:
  "foldl (\<lambda>acc i. acc @ f i) a xs = a @ concat (map f xs)"
  by (induction xs arbitrary: a) simp_all

lemma gatherLocal_concat:
  assumes "0 < length (graphs c)"
  shows "gatherLocal c getFn = concat (map getFn [0..<length (graphs c)])"
proof -
  have "[0..<length (graphs c)] = 0 # [1..<length (graphs c)]"
    using assms by (simp add: upt_conv_Cons)
  then show ?thesis
    by (simp add: gatherLocal_def foldl_append_concat)
qed

lemma gatherState_loop_append:
  assumes "0 \<notin> set rs"
  shows "fst (gatherState_loop m localData peers rs (dat, tmp))
           = dat @ concat (map (\<lambda>r. if r = myMPIRank m then localData else peers r) rs)"
  using assms
  by (induction rs arbitrary: dat tmp) (simp_all add: bCast_def Let_def)

lemma gatherState_loop_all:
  assumes "0 < P"
  shows "fst (gatherState_loop m localData peers [0..<P] ([], []))
           = concat (map (\<lambda>r. if r = myMPIRank m then localData else peers r) [0..<P])"
proof -
  have u: "[0..<P] = 0 # [1..<P]" using assms by (simp add: upt_conv_Cons)
  have "0 \<notin> set [1..<P]" by simp
  then show ?thesis
    unfolding u by (simp add: gatherState_loop_append bCast_def Let_def)
qed

lemma concat_slices:
  fixes cut :: "nat \<Rightarrow> nat"
  assumes "cut 0 = 0" and "\<And>r. r < n \<Longrightarrow> cut r \<le> cut (r + 1)"
  shows "concat (map (\<lambda>r. take (cut (r + 1) - cut r) (drop (cut r) xs)) [0..<n]) = take (cut n) xs"
  using assms(2)
proof (induction n)
  case 0
  show ?case using assms(1) by simp
next
  case (Suc n)
  have le: "cut n \<le> cut (n + 1)" using Suc.prems[of n] by simp
  have "take (cut n) xs @ take (cut (n + 1) - cut n) (drop (cut n) xs)
          = take (cut n + (cut (n + 1) - cut n)) xs"
    by (simp only: take_add)
  also have "\<dots> = take (cut (n + 1)) xs" using le by simp
  finally show ?case using Suc by simp
qed

lemma wf_world_mpi_Some:
  assumes "wf_world w D" "p < length w" "mpi (w ! p) = Some m"
  shows "myMPIRank m = p" and "numMPIProcesses m = length w"
proof -
  from assms(1,2) have
    "mpi (w ! p) = Some \<lparr>myMPIRank = p, numMPIProcesses = length w\<rparr> \<or> mpi (w ! p) = None"
    by (auto simp: wf_world_def)
  with assms(3) have "m = \<lparr>myMPIRank = p, numMPIProcesses = length w\<rparr>" by simp
  then show "myMPIRank m = p" and "numMPIProcesses m = length w" by simp_all
qed

lemma wf_world_mpi_None:
  assumes "wf_world w D" "p < length w" "mpi (w ! p) = None"
  shows "length w = 1"
proof -
  from assms(1,2) have
    "mpi (w ! p) = Some \<lparr>myMPIRank = p, numMPIProcesses = length w\<rparr>
       \<or> length w = 1 \<and> mpi (w ! p) = None"
    by (auto simp: wf_world_def)
  with assms(3) show ?thesis by simp
qed

lemma concat_map_concat: "concat (map concat xss) = concat (concat xss)"
  by (induction xss) simp_all

lemma foldl_store:
  "foldl (\<lambda>kept (i, b, e). kept(i := F b e)) kept0 (map (\<lambda>i. (i, B i, E i)) is)
     = (\<lambda>j. if j \<in> set is then F (B j) (E j) else kept0 j)"
proof (induction "is" arbitrary: kept0)
  case Nil
  show ?case by simp
next
  case (Cons i "is")
  have "foldl (\<lambda>kept (i, b, e). kept(i := F b e)) kept0 (map (\<lambda>i. (i, B i, E i)) (i # is))
      = foldl (\<lambda>kept (i, b, e). kept(i := F b e)) (kept0(i := F (B i) (E i)))
          (map (\<lambda>i. (i, B i, E i)) is)"
    by (simp only: list.map foldl_Cons prod.case)
  also have "\<dots> = (\<lambda>j. if j \<in> set is then F (B j) (E j) else (kept0(i := F (B i) (E i))) j)"
    by (rule Cons.IH)
  also have "\<dots> = (\<lambda>j. if j \<in> set (i # is) then F (B j) (E j) else kept0 j)"
    by (rule ext) auto
  finally show ?case .
qed

lemma byteRange_cut:
  fixes sz :: nat
  shows "byteRange bytes (r * sz) (min (r * sz + sz) (length bytes))
           = take (min ((r + 1) * sz) (length bytes) - min (r * sz) (length bytes))
               (drop (min (r * sz) (length bytes)) bytes)"
proof (cases "r * sz \<le> length bytes")
  case True
  then show ?thesis by (simp add: byteRange_def min_def)
next
  case False
  then have "length bytes < r * sz" by simp
  then show ?thesis by (simp add: byteRange_def)
qed

lemma storedShards_wf:
  fixes bytes :: "'b list" and sz :: nat and cutAt :: "nat \<Rightarrow> nat"
    and w :: "'a comm list" and D :: nat
  defines "sz \<equiv> (length bytes + length w * D - 1) div (length w * D)"
  defines "cutAt \<equiv> \<lambda>r. min (r * sz) (length bytes)"
  assumes wf: "wf_world w D" and p: "p < length w"
  shows "storedShards (w ! p) bytes =
           Inr (\<lambda>i. if i < D
                    then take (cutAt (p * D + i + 1) - cutAt (p * D + i))
                           (drop (cutAt (p * D + i)) bytes)
                    else [])"
proof -
  let ?L = "length bytes"
  have calls: "scatterState (w ! p) bytes
      = Inr (map (\<lambda>i. (i, (p * D + i) * sz, min ((p * D + i) * sz + sz) ?L)) [0..<D])"
    using scatterState_wf[OF wf p, of bytes] by (simp only: sz_def)
  have "foldl (\<lambda>kept (i, b, e). kept(i := byteRange bytes b e)) (\<lambda>i. [])
          (map (\<lambda>i. (i, (p * D + i) * sz, min ((p * D + i) * sz + sz) ?L)) [0..<D])
      = (\<lambda>j. if j \<in> set [0..<D]
               then byteRange bytes ((p * D + j) * sz) (min ((p * D + j) * sz + sz) ?L) else [])"
    by (rule foldl_store)
  also have "\<dots> = (\<lambda>i. if i < D
                    then take (cutAt (p * D + i + 1) - cutAt (p * D + i))
                           (drop (cutAt (p * D + i)) bytes)
                    else [])"
    by (rule ext) (simp add: byteRange_cut cutAt_def)
  finally show ?thesis using calls by (simp add: storedShards_def)
qed

text \<open>
  Claim C5.  For every buffer, on a run of any number of processes with any number of devices
  (at least one of each), with and without MPI: \<open>scatterState\<close> on every process, with
  setters that keep the bytes in the range they are handed, followed by \<open>gatherState\<close> with
  getters that return what was kept, gives the buffer back on every process.
\<close>

theorem scatter_gather_roundtrip:
  fixes bytes :: "'b list"
  assumes wf: "wf_world w D" and p: "p < length w"
  shows "scatterThenGather w bytes p = Inr bytes"
proof -
  let ?L = "length bytes" and ?P = "length w"
  define sz where "sz = (?L + ?P * D - 1) div (?P * D)"
  define cutAt where "cutAt = (\<lambda>r. min (r * sz) ?L)"
  define slice where "slice = (\<lambda>r. take (cutAt (r + 1) - cutAt r) (drop (cutAt r) bytes))"
  define kept where "kept = (\<lambda>q i. if i < D then slice (q * D + i) else [])"
  define keep where "keep = (\<lambda>q. map (\<lambda>i. slice (q * D + i)) [0..<D])"
  have N: "0 < ?P * D" using wf by (rule wf_world_pos)
  have D: "0 < D" and P: "0 < ?P" using N by simp_all
  have stored: "storedShards (w ! q) bytes = Inr (kept q)" if "q < ?P" for q
    unfolding kept_def slice_def cutAt_def sz_def by (rule storedShards_wf[OF wf that])
  have "mapM_err (\<lambda>c. storedShards c bytes) (map (\<lambda>q. w ! q) [0..<?P])
      = mapM_err (\<lambda>q. storedShards (w ! q) bytes) [0..<?P]"
    by (rule mapM_err_map)
  also have "\<dots> = Inr (map kept [0..<?P])"
    by (rule mapM_err_Inr) (simp add: stored)
  finally have all_kept: "mapM_err (\<lambda>c. storedShards c bytes) w = Inr (map kept [0..<?P])"
    by (simp add: map_nth)
  have local: "gatherLocal (w ! q) (map kept [0..<?P] ! q) = concat (keep q)"
    if "q < ?P" for q
  proof -
    have len: "length (graphs (w ! q)) = D" using wf_world_ranks(3)[OF wf that] .
    have k: "map (map kept [0..<?P] ! q) [0..<D] = keep q"
      using that by (intro nth_equalityI) (simp_all add: keep_def kept_def)
    have "gatherLocal (w ! q) (map kept [0..<?P] ! q)
        = concat (map (map kept [0..<?P] ! q) [0..<length (graphs (w ! q))])"
      by (rule gatherLocal_concat) (simp add: len D)
    also have "\<dots> = concat (keep q)" by (simp only: len k)
    finally show ?thesis .
  qed
  have all: "concat (map (\<lambda>q. concat (keep q)) [0..<?P]) = bytes"
  proof -
    have "concat (map (\<lambda>q. concat (keep q)) [0..<?P]) = concat (map concat (map keep [0..<?P]))"
      by (simp add: comp_def)
    also have "\<dots> = concat (concat (map keep [0..<?P]))"
      by (rule concat_map_concat)
    also have "concat (map keep [0..<?P]) = map slice [0..<?P * D]"
      unfolding keep_def by (rule concat_blocks)
    also have "concat (map slice [0..<?P * D]) = take (cutAt (?P * D)) bytes"
      unfolding slice_def by (rule concat_slices) (simp_all add: cutAt_def min_le_iff_disj)
    also have "cutAt (?P * D) = ?L"
      using ceil_div_ge[OF N, of ?L] by (simp add: cutAt_def sz_def mult.commute)
    finally show ?thesis by simp
  qed
  have "gatherState (w ! p) (map kept [0..<?P] ! p)
          (\<lambda>q. gatherLocal (w ! q) (map kept [0..<?P] ! q)) = bytes"
  proof (cases "mpi (w ! p)")
    case None
    with wf p have one: "?P = 1" by (intro wf_world_mpi_None)
    then have p0: "p = 0" using p by simp
    have "gatherLocal (w ! p) (map kept [0..<?P] ! p) = concat (keep p)"
      using local[OF p] .
    moreover have "concat (keep 0) = bytes" using all by (simp add: one)
    ultimately show ?thesis using None by (simp add: gatherState_def p0)
  next
    case (Some m)
    with wf p have m: "myMPIRank m = p" "numMPIProcesses m = ?P"
      by (simp_all add: wf_world_mpi_Some)
    have mapeq: "map (\<lambda>r. if r = p then gatherLocal (w ! p) (map kept [0..<?P] ! p)
                     else gatherLocal (w ! r) (map kept [0..<?P] ! r)) [0..<?P]
        = map (\<lambda>q. concat (keep q)) [0..<?P]"
    proof (rule map_cong[OF refl])
      fix x assume "x \<in> set [0..<?P]"
      then have x: "x < ?P" by simp
      show "(if x = p then gatherLocal (w ! p) (map kept [0..<?P] ! p)
                     else gatherLocal (w ! x) (map kept [0..<?P] ! x)) = concat (keep x)"
      proof (cases "x = p")
        case True
        then show ?thesis using local[OF p] by (simp only: if_True refl)
      next
        case False
        then show ?thesis using local[OF x] by (simp only: if_False refl)
      qed
    qed
    have "gatherState (w ! p) (map kept [0..<?P] ! p)
            (\<lambda>q. gatherLocal (w ! q) (map kept [0..<?P] ! q))
        = fst (gatherState_loop m (gatherLocal (w ! p) (map kept [0..<?P] ! p))
                 (\<lambda>q. gatherLocal (w ! q) (map kept [0..<?P] ! q)) [0..<?P] ([], []))"
      using Some by (simp add: gatherState_def m)
    also have "\<dots> = concat (map (\<lambda>r. if r = p then gatherLocal (w ! p) (map kept [0..<?P] ! p)
                     else gatherLocal (w ! r) (map kept [0..<?P] ! r)) [0..<?P])"
      using gatherState_loop_all[OF P, of m] by (simp only: m)
    also have "\<dots> = concat (map (\<lambda>q. concat (keep q)) [0..<?P])"
      by (simp only: mapeq)
    also have "\<dots> = bytes" by (rule all)
    finally show ?thesis .
  qed
  then show ?thesis using all_kept by (simp add: scatterThenGather_def)
qed

theorem scatter_gather_roundtrip_witness:
  "wf_world (exampleWorld 2 2 4) 2
   \<and> scatterThenGather (exampleWorld 2 2 4) exampleBytes 0 = Inr exampleBytes
   \<and> scatterThenGather (exampleWorld 2 2 4) exampleBytes 1 = Inr exampleBytes
   \<and> wf_world [exampleComm 4 8 None] 4
   \<and> scatterThenGather [exampleComm 4 8 None] ''abcde'' 0 = Inr ''abcde''"
proof -
  have wf: "wf_world (exampleWorld 2 2 4) 2"
    by (rule wf_exampleWorld) simp_all
  have len: "length (exampleWorld 2 2 4) = 2" by (simp add: exampleWorld_def)
  have p0: "0 < length (exampleWorld 2 2 4)" and p1: "1 < length (exampleWorld 2 2 4)"
    by (simp_all add: len)
  have wf': "wf_world [exampleComm 4 8 None] 4"
    by (rule wf_exampleComm_None) simp
  have p': "0 < length [exampleComm 4 8 None]" by simp
  show ?thesis
    using wf wf' scatter_gather_roundtrip[OF wf p0, of exampleBytes]
      scatter_gather_roundtrip[OF wf p1, of exampleBytes]
      scatter_gather_roundtrip[OF wf' p', of "''abcde''"]
    by simp
qed

text \<open>
  \<open>scatterState\<close> clips the end of a shard to the size of the data but not its begin.  For
  five bytes on four devices the shard size is two, and the call for the fourth device has
  its begin pointer six bytes into the buffer and its end pointer five bytes into it.
\<close>

lemma scatterState_begin_unclipped:
  "scatterState (exampleComm 4 8 None) ''abcde'' = Inr [(0, 0, 2), (1, 2, 4), (2, 4, 5), (3, 6, 5)]"
proof -
  have n: "numNcclRanks (exampleComm 4 8 None) = 4" "length (graphs (exampleComm 4 8 None)) = 4"
    by (simp_all add: numNcclRanks_def exampleComm_def)
  have m: "myNcclRank (exampleComm 4 8 None) i = i" for i
    by (simp add: myNcclRank_def exampleComm_def)
  have u: "[0..<4] = [0, 1, 2, 3]" by (simp add: upt_rec)
  show ?thesis
    by (simp add: scatterState_def n m u)
qed

section \<open>Properties of the fan-out\<close>

lemma localShardRange_shardSize_Inl:
  "shardSize c = Inl e \<Longrightarrow> localShardRange c i = Inl e"
  by (simp add: localShardRange_def ncclRankShardRange_def)

lemma localShardRange_not_isl:
  assumes "\<not> isl (shardSize c)"
  shows "\<not> isl (localShardRange c i)"
proof -
  from assms obtain s where s: "shardSize c = Inr s" by (cases "shardSize c") simp_all
  then obtain tot where "dataSize c = Inr tot" by (auto simp: shardSize_Inr_iff)
  with s show ?thesis by (simp add: localShardRange_def ncclRankShardRange_def Let_def)
qed

lemma foreachAcc_loop_abort:
  assumes "shardSize c = Inl e"
  shows "foreachAcc_loop c func acc par (i # is) s = Inl e"
  using localShardRange_shardSize_Inl[OF assms, of i] by (cases s) simp

lemma foreachAcc_loop_sequential:
  assumes "\<And>i. i \<in> set is \<Longrightarrow> localShardRange c i = Inr (rng i)"
  shows "foreachAcc_loop c func acc False is (ret, trs, st) =
           Inr (foldl acc ret (fst (runDevices func rng is st)), trs,
                snd (runDevices func rng is st))"
  using assms
proof (induction "is" arbitrary: ret st)
  case Nil
  show ?case by simp
next
  case (Cons i "is")
  obtain b e where be: "rng i = (b, e)"
    by (cases "rng i")
  obtain r st' where f: "func i b e st = (r, st')"
    by (cases "func i b e st")
  obtain rs st'' where rd: "runDevices func rng is st' = (rs, st'')"
    by (cases "runDevices func rng is st'")
  have rng: "localShardRange c i = Inr (b, e)"
    using Cons.prems[of i] be by simp
  have ih: "foreachAcc_loop c func acc False is (ret', trs, st') =
           Inr (foldl acc ret' rs, trs, st'')" for ret'
    using Cons.IH[of ret' st'] Cons.prems rd by simp
  show ?case
    using ih by (simp add: rng be f rd)
qed

lemma foreachAcc_loop_parallel:
  assumes "\<And>i. i \<in> set is \<Longrightarrow> localShardRange c i = Inr (rng i)"
  shows "foreachAcc_loop c func acc True is (ret, trs, st) =
           Inr (ret, trs @ map (\<lambda>i. (i, rng i)) is, st)"
  using assms
proof (induction "is" arbitrary: trs)
  case Nil
  show ?case by simp
next
  case (Cons i "is")
  obtain b e where be: "rng i = (b, e)"
    by (cases "rng i")
  have rng: "localShardRange c i = Inr (b, e)"
    using Cons.prems[of i] be by simp
  have ih: "foreachAcc_loop c func acc True is (ret, trs', st) =
           Inr (ret, trs' @ map (\<lambda>i. (i, rng i)) is, st)" for trs'
    using Cons.IH[of trs'] Cons.prems by simp
  show ?case
    using ih by (simp add: rng be)
qed

lemma threadPool_run_runDevices:
  "threadPool_run func (map (\<lambda>i. (i, rng i)) is) st
     = (zip is (fst (runDevices func rng is st)), snd (runDevices func rng is st))"
proof (induction "is" arbitrary: st)
  case Nil
  show ?case by simp
next
  case (Cons i "is")
  obtain b e where be: "rng i = (b, e)"
    by (cases "rng i")
  obtain r st' where f: "func i b e st = (r, st')"
    by (cases "func i b e st")
  obtain rs st'' where rd: "runDevices func rng is st' = (rs, st'')"
    by (cases "runDevices func rng is st'")
  show ?case
    using Cons.IH[of st'] by (simp add: be f rd)
qed

lemma runDevices_results:
  assumes "\<And>i b e st. fst (func i b e st) = F i b e"
  shows "fst (runDevices func rng is st) = map (\<lambda>i. F i (fst (rng i)) (snd (rng i))) is"
proof (induction "is" arbitrary: st)
  case Nil
  show ?case by simp
next
  case (Cons i "is")
  obtain r st' where f: "func i (fst (rng i)) (snd (rng i)) st = (r, st')"
    by (cases "func i (fst (rng i)) (snd (rng i)) st")
  obtain rs st'' where rd: "runDevices func rng is st' = (rs, st'')"
    by (cases "runDevices func rng is st'")
  have "r = F i (fst (rng i)) (snd (rng i))"
    using assms[of i "fst (rng i)" "snd (rng i)" st] f by simp
  then show ?case
    using Cons.IH[of st'] by (simp add: f rd)
qed

lemma insort_key_map:
  "insort_key k (g x) (map g ys) = map g (insort_key (\<lambda>y. k (g y)) x ys)"
  by (induction ys) simp_all

lemma sort_key_map:
  "sort_key k (map g xs) = map g (sort_key (\<lambda>y. k (g y)) xs)"
  by (induction xs) (simp_all add: insort_key_map)

lemma sort_schedule:
  "sort_key (\<lambda>i. i) (sort_key prio [0..<n]) = [0..<n]"
  by (rule properties_for_sort) simp_all

lemma zip_map_same: "zip xs (map f xs) = map (\<lambda>x. (x, f x)) xs"
  by (induction xs) simp_all

text \<open>
  Where the shard size can be computed and the result of the per-device function does not
  depend on the state it works on, \<open>foreachAcc\<close> returns the fold of the results in ascending
  order of the device index, in both modes, and the state after the calls in the order in
  which they ran.
\<close>

lemma foreachAcc_run:
  assumes rng: "\<And>i. i < length (graphs c) \<Longrightarrow> localShardRange c i = Inr (rng i)"
    and res: "\<And>i b e st. fst (func i b e st) = F i b e"
  shows "foreachAcc c func acc init par prio st =
           Inr (foldl acc init
                  (map (\<lambda>i. F i (fst (rng i)) (snd (rng i))) [0..<length (graphs c)]),
                snd (runDevices func rng
                       (if par \<and> 1 < length (graphs c)
                        then sort_key prio [0..<length (graphs c)]
                        else [0..<length (graphs c)]) st))"
proof (cases "par \<and> 1 < length (graphs c)")
  case True
  let ?D = "length (graphs c)"
  let ?order = "sort_key prio [0..<?D]"
  let ?F = "\<lambda>i. F i (fst (rng i)) (snd (rng i))"
  have loop: "foreachAcc_loop c func acc True [0..<?D] (init, [], st)
      = Inr (init, [] @ map (\<lambda>i. (i, rng i)) [0..<?D], st)"
    by (rule foreachAcc_loop_parallel) (simp add: rng)
  have tasks: "sort_key (\<lambda>(i, b, e). prio i) (map (\<lambda>i. (i, rng i)) [0..<?D])
      = map (\<lambda>i. (i, rng i)) ?order"
    by (simp add: sort_key_map case_prod_beta)
  have pool: "threadPool_run func (map (\<lambda>i. (i, rng i)) ?order) st
      = (map (\<lambda>i. (i, ?F i)) ?order, snd (runDevices func rng ?order st))"
    by (simp add: threadPool_run_runDevices runDevices_results[of func F, OF res] zip_map_same)
  have "sort_key fst (map (\<lambda>i. (i, ?F i)) ?order)
      = map (\<lambda>i. (i, ?F i)) (sort_key (\<lambda>i. i) ?order)"
    by (simp add: sort_key_map)
  then have futures: "map snd (sort_key fst (map (\<lambda>i. (i, ?F i)) ?order)) = map ?F [0..<?D]"
    by (simp add: sort_schedule comp_def)
  have par: "(par \<and> 1 < ?D) = True" using True by simp
  show ?thesis
    unfolding foreachAcc_def Let_def par
    by (simp add: loop tasks pool futures)
next
  case False
  let ?D = "length (graphs c)"
  have loop: "foreachAcc_loop c func acc False [0..<?D] (init, [], st)
      = Inr (foldl acc init (fst (runDevices func rng [0..<?D] st)), [],
             snd (runDevices func rng [0..<?D] st))"
    by (rule foreachAcc_loop_sequential) (simp add: rng)
  have par: "(par \<and> 1 < ?D) = False" using False by simp
  show ?thesis
    unfolding foreachAcc_def Let_def par
    by (simp add: loop runDevices_results[of func F, OF res])
qed

lemma foreachAcc_abort:
  assumes "shardSize c = Inl e" "0 < length (graphs c)"
  shows "foreachAcc c func acc init par prio st = Inl e"
proof -
  have u: "[0..<length (graphs c)] = 0 # [1..<length (graphs c)]"
    using assms(2) by (simp add: upt_conv_Cons)
  have "foreachAcc_loop c func acc p [0..<length (graphs c)] s = Inl e" for p s
    by (simp only: u foreachAcc_loop_abort[OF assms(1)])
  then show ?thesis
    unfolding foreachAcc_def Let_def by (simp only: sum.case)
qed

lemma foreachAcc_no_device:
  assumes "length (graphs c) = 0"
  shows "foreachAcc c func acc init par prio st = Inr (init, st)"
  using assms by (simp add: foreachAcc_def)

lemma runDevices_pure:
  "runDevices (\<lambda>i b e st. (f i b e, st)) rng is st = (map (\<lambda>i. f i (fst (rng i)) (snd (rng i))) is, st)"
  by (induction "is") simp_all

lemma runDevices_logged:
  "runDevices (\<lambda>i b e calls. (f i b e, calls @ [(i, b, e)])) rng is calls
     = (map (\<lambda>i. f i (fst (rng i)) (snd (rng i))) is, calls @ map (\<lambda>i. (i, rng i)) is)"
  by (induction "is" arbitrary: calls) simp_all

lemma foldl_allTrue: "foldl allTrue b rs \<longleftrightarrow> b \<and> (\<forall>r\<in>set rs. r)"
  by (induction rs arbitrary: b) (auto simp: allTrue_def)

lemma localShardRange_projr:
  assumes "\<not> isl (shardSize c)"
  shows "localShardRange c i = Inr (projr (localShardRange c i))"
  using localShardRange_not_isl[OF assms, of i] by (cases "localShardRange c i") simp_all

lemma foreachAcc_pure:
  assumes "\<not> isl (shardSize c)"
  shows "foreachAcc c (\<lambda>i b e st. (f i b e, st)) acc init par prio st
           = Inr (foldl acc init
                    (map (\<lambda>i. f i (fst (projr (localShardRange c i))) (snd (projr (localShardRange c i))))
                       [0..<length (graphs c)]),
                  st)"
proof -
  have rng: "localShardRange c i = Inr (projr (localShardRange c i))" for i
    using assms by (rule localShardRange_projr)
  have res: "fst ((\<lambda>i b e st. (f i b e, st)) i b e st) = f i b e" for i b e and st :: 'c
    by simp
  show ?thesis
    using foreachAcc_run[of c "\<lambda>i. projr (localShardRange c i)" "\<lambda>i b e st. (f i b e, st)" f,
        OF rng res, of acc init par prio st]
    by (simp only: runDevices_pure snd_conv)
qed

lemma foreachAcc_pure_mode_irrelevant:
  "foreachAcc c (\<lambda>i b e st. (f i b e, st)) acc init True prio st
     = foreachAcc c (\<lambda>i b e st. (f i b e, st)) acc init False prio' st"
proof (cases "length (graphs c) = 0")
  case True
  then show ?thesis by (simp add: foreachAcc_no_device)
next
  case False
  then have D: "0 < length (graphs c)" by simp
  show ?thesis
  proof (cases "shardSize c")
    case (Inl e)
    then show ?thesis by (simp add: foreachAcc_abort[OF _ D])
  next
    case (Inr s)
    then have ok: "\<not> isl (shardSize c)" by simp
    show ?thesis by (simp only: foreachAcc_pure[OF ok])
  qed
qed

text \<open>
  Every order of the devices is the order of a schedule: that of the position in the order.
\<close>

lemma position_distinct:
  assumes "distinct order"
  shows "map (position order) order = [0..<length order]"
  using assms
proof (induction order)
  case Nil
  show ?case by simp
next
  case (Cons j js)
  have tl: "map (position (j # js)) js = [Suc 0..<Suc (length js)]"
  proof -
    have "map (position (j # js)) js = map (\<lambda>i. Suc (position js i)) js"
      using Cons.prems by (intro map_cong[OF refl]) auto
    also have "\<dots> = map Suc (map (position js) js)" by simp
    also have "\<dots> = map Suc [0..<length js]" using Cons by simp
    also have "\<dots> = [Suc 0..<Suc (length js)]" by (rule map_Suc_upt)
    finally show ?thesis .
  qed
  have "map (position (j # js)) (j # js) = 0 # map (position (j # js)) js" by simp
  also have "\<dots> = 0 # [Suc 0..<Suc (length js)]" by (simp only: tl)
  also have "\<dots> = [0..<Suc (length js)]" by (rule upt_conv_Cons[symmetric]) simp
  finally show ?case by (simp only: list.size(4) Suc_eq_plus1[symmetric] add_Suc_right add_0_right)
qed

lemma position_inj:
  assumes "k \<in> set order" "x \<in> set order" "position order k = position order x"
  shows "k = x"
  using assms by (induction order) (auto split: if_splits)

lemma filter_single:
  assumes "distinct xs" "k \<in> set xs" "\<And>x. x \<in> set xs \<Longrightarrow> P x \<longleftrightarrow> x = k"
  shows "filter P xs = [k]"
  using assms
proof (induction xs)
  case Nil
  then show ?case by simp
next
  case (Cons y ys)
  show ?case
  proof (cases "y = k")
    case True
    then have "k \<notin> set ys" using Cons.prems(1) by simp
    then have "\<And>x. x \<in> set ys \<Longrightarrow> \<not> P x" using Cons.prems(3) by auto
    then have "filter P ys = []" by (simp add: filter_empty_conv)
    moreover have "P y" using Cons.prems(3)[of y] True by simp
    ultimately show ?thesis using True by simp
  next
    case False
    then have "k \<in> set ys" "\<not> P y" using Cons.prems(2,3) by auto
    then show ?thesis using Cons by simp
  qed
qed

lemma schedule_any_order:
  assumes "distinct order" "set order = {0..<n}"
  shows "sort_key (position order) [0..<n] = order"
proof (rule properties_for_sort_key)
  have "set order = set [0..<n]" using assms(2) by simp
  then show "mset order = mset [0..<n]"
    using assms(1) set_eq_iff_mset_eq_distinct[of order "[0..<n]"] distinct_upt by blast
  show "sorted (map (position order) order)"
    by (simp add: position_distinct[OF assms(1)])
  fix k assume k: "k \<in> set order"
  have P: "(position order k = position order x) \<longleftrightarrow> x = k" if "x \<in> set order" for x
    using position_inj[OF k that] by auto
  have "filter (\<lambda>x. position order k = position order x) order = [k]"
    by (rule filter_single[OF assms(1) k]) (rule P)
  moreover have "filter (\<lambda>x. position order k = position order x) [0..<n] = [k]"
    by (rule filter_single) (use assms k P in simp_all)
  ultimately show "filter (\<lambda>x. position order k = position order x) order
      = filter (\<lambda>x. position order k = position order x) [0..<n]"
    by simp
qed

lemma ex_numNcclRanks_None: "numNcclRanks (exampleComm d k None) = d"
  by (simp add: numNcclRanks_def exampleComm_def)

lemma ex_myNcclRank_None: "myNcclRank (exampleComm d k None) i = i"
  by (simp add: myNcclRank_def exampleComm_def)

lemma ex_length_graphs: "length (graphs (exampleComm d k m)) = d"
  by (simp add: exampleComm_def)

lemma ex_shardSize_None:
  assumes "0 < d"
  shows "shardSize (exampleComm d (d * s) None) = Inr s"
proof -
  obtain d' where d': "d = Suc d'" using assms by (cases d) simp_all
  have "dataSize (exampleComm d (d * s) None) = Inr (d * s)"
    unfolding d' by (rule ex_dataSize)
  from shardSize_uniform[OF this] assms show ?thesis
    by (simp add: ex_numNcclRanks_None)
qed

lemma ex_localShardRange_None:
  assumes "0 < d" "i < d"
  shows "localShardRange (exampleComm d (d * s) None) i = Inr (i * s, i * s + s)"
proof -
  obtain d' where d': "d = Suc d'" using assms by (cases d) simp_all
  have ds: "dataSize (exampleComm d (d * s) None) = Inr (d * s)"
    unfolding d' by (rule ex_dataSize)
  have "(i + 1) * s \<le> d * s" using assms(2) by (intro mult_le_mono1) simp
  then have "min (i * s + s) (d * s) = i * s + s" by simp
  then show ?thesis
    by (simp add: localShardRange_def ncclRankShardRange_def ex_shardSize_None[OF assms(1)] ds
        ex_myNcclRank_None Let_def)
qed

text \<open>
  Claim C6.  For a per-device function without effects, any reducer and any initial value,
  \<open>foreachAcc\<close> returns the same with \<open>parallel\<close> true and false, whatever the schedule of
  the thread pool.  Where the shard size can be computed, both modes return the left fold of
  the reducer over the results in ascending order of the device index, starting from the
  initial value.
\<close>

theorem foreachAcc_parallel_eq_sequential:
  "foreachAcc c (\<lambda>i b e st. (f i b e, st)) acc init True prio st
     = foreachAcc c (\<lambda>i b e st. (f i b e, st)) acc init False prio' st
   \<and> (\<not> isl (shardSize c) \<longrightarrow>
        (\<forall>parallel. foreachAcc c (\<lambda>i b e st. (f i b e, st)) acc init parallel prio st
           = Inr (foldl acc init
                    (map (\<lambda>i. f i (fst (projr (localShardRange c i))) (snd (projr (localShardRange c i))))
                       [0..<length (graphs c)]),
                  st)))"
proof (intro conjI impI allI)
  show "foreachAcc c (\<lambda>i b e st. (f i b e, st)) acc init True prio st
     = foreachAcc c (\<lambda>i b e st. (f i b e, st)) acc init False prio' st"
    by (rule foreachAcc_pure_mode_irrelevant)
next
  fix parallel
  assume "\<not> isl (shardSize c)"
  then show "foreachAcc c (\<lambda>i b e st. (f i b e, st)) acc init parallel prio st
           = Inr (foldl acc init
                    (map (\<lambda>i. f i (fst (projr (localShardRange c i))) (snd (projr (localShardRange c i))))
                       [0..<length (graphs c)]),
                  st)"
    by (rule foreachAcc_pure)
qed

theorem foreachAcc_parallel_eq_sequential_witness:
  "\<not> isl (shardSize (exampleComm 3 12 None))
   \<and> foreachAcc (exampleComm 3 12 None) (\<lambda>i b e st. (int b, st)) (\<lambda>x y. 2 * x + y) 0 True
       (position [2, 0, 1]) ()
       = Inr (16, ())
   \<and> foreachAcc (exampleComm 3 12 None) (\<lambda>i b e st. (int b, st)) (\<lambda>x y. 2 * x + y) 0 False
       (position [2, 0, 1]) ()
       = Inr (16, ())"
proof -
  have s: "shardSize (exampleComm 3 12 None) = Inr 4"
    using ex_shardSize_None[of 3 4] by simp
  then have ok: "\<not> isl (shardSize (exampleComm 3 12 None))" by simp
  have r: "localShardRange (exampleComm 3 12 None) i = Inr (i * 4, i * 4 + 4)" if "i < 3" for i
    using ex_localShardRange_None[of 3 i 4] that by simp
  have u: "[0..<3] = [0, 1, 2]" by (simp add: upt_rec)
  note t = foreachAcc_parallel_eq_sequential[of "exampleComm 3 12 None" "\<lambda>i b e. int b"
      "\<lambda>x y. 2 * x + y" 0 "position [2, 0, 1]" "()", THEN conjunct2, rule_format, OF ok]
  show ?thesis
    using ok t[of True] t[of False] by (simp add: ex_length_graphs u r)
qed

text \<open>
  Claim C7.  The overload of \<open>foreach\<close> that returns a boolean folds with logical and from
  \<open>True\<close>: it returns whether the function returned true on every local device.  The
  function here records its invocations; it is invoked exactly once per local device, with
  the device's own shard range: in every mode and under every schedule the record holds,
  up to the order, one entry for each device; in the sequential mode the entries are in
  ascending order of the device index.  The fold of the same results in any other order gives
  the same value.
\<close>

theorem foreach_bool_all_devices:
  assumes "\<not> isl (shardSize c)"
  shows "\<not> isl (foreach c (\<lambda>i b e calls. (f i b e, calls @ [(i, b, e)])) parallel prio calls)
         \<and> fst (projr (foreach c (\<lambda>i b e calls. (f i b e, calls @ [(i, b, e)])) parallel prio calls))
             = (\<forall>i<length (graphs c).
                  f i (fst (projr (localShardRange c i))) (snd (projr (localShardRange c i))))
         \<and> mset (snd (projr (foreach c (\<lambda>i b e calls. (f i b e, calls @ [(i, b, e)]))
                               parallel prio calls)))
             = mset calls
               + mset (map (\<lambda>i. (i, projr (localShardRange c i))) [0..<length (graphs c)])
         \<and> foreach c (\<lambda>i b e calls. (f i b e, calls @ [(i, b, e)])) False prio calls
             = Inr ((\<forall>i<length (graphs c).
                       f i (fst (projr (localShardRange c i))) (snd (projr (localShardRange c i)))),
                    calls @ map (\<lambda>i. (i, projr (localShardRange c i))) [0..<length (graphs c)])
         \<and> (\<forall>rs. mset rs = mset (map (\<lambda>i. f i (fst (projr (localShardRange c i)))
                                          (snd (projr (localShardRange c i))))
                                 [0..<length (graphs c)]) \<longrightarrow>
                 foldl allTrue True rs
                   = (\<forall>i<length (graphs c).
                        f i (fst (projr (localShardRange c i))) (snd (projr (localShardRange c i)))))"
proof -
  let ?D = "length (graphs c)"
  let ?rng = "\<lambda>i. projr (localShardRange c i)"
  let ?func = "\<lambda>i b e calls. (f i b e, calls @ [(i, b, e)])"
  let ?res = "map (\<lambda>i. f i (fst (?rng i)) (snd (?rng i))) [0..<?D]"
  let ?all = "\<forall>i<?D. f i (fst (?rng i)) (snd (?rng i))"
  have all: "(\<forall>r\<in>set ?res. r) \<longleftrightarrow> ?all"
    by auto
  have rng: "localShardRange c i = Inr (?rng i)" for i
    using assms by (rule localShardRange_projr)
  have res: "fst (?func i b e st) = f i b e" for i b e and st :: "(nat \<times> nat \<times> nat) list"
    by simp
  have run: "foreach c ?func par prio calls
      = Inr (?all, calls @ map (\<lambda>i. (i, ?rng i))
                      (if par \<and> 1 < ?D then sort_key prio [0..<?D] else [0..<?D]))" for par
    unfolding foreach_def
    using foreachAcc_run[of c ?rng ?func f, OF rng res, of allTrue True par prio calls]
    by (simp only: runDevices_logged snd_conv foldl_allTrue all simp_thms)
  have c1: "\<not> isl (foreach c ?func parallel prio calls)"
    by (simp only: run sum.disc simp_thms)
  have c2: "fst (projr (foreach c ?func parallel prio calls)) = ?all"
    by (simp only: run sum.sel fst_conv)
  have "mset (if par \<and> 1 < ?D then sort_key prio [0..<?D] else [0..<?D]) = mset [0..<?D]" for par
    by simp
  then have "mset (map (\<lambda>i. (i, ?rng i)) (if par \<and> 1 < ?D then sort_key prio [0..<?D] else [0..<?D]))
      = mset (map (\<lambda>i. (i, ?rng i)) [0..<?D])" for par
    by (simp only: mset_map)
  then have c3: "mset (snd (projr (foreach c ?func parallel prio calls)))
      = mset calls + mset (map (\<lambda>i. (i, ?rng i)) [0..<?D])"
    by (simp only: run sum.sel snd_conv mset_append)
  have c4: "foreach c ?func False prio calls
      = Inr (?all, calls @ map (\<lambda>i. (i, ?rng i)) [0..<?D])"
    by (simp only: run simp_thms if_False)
  have c5: "foldl allTrue True rs = ?all" if "mset rs = mset ?res" for rs
  proof -
    from that have "set rs = set ?res" by (rule mset_eq_setD)
    then show ?thesis by (simp only: foldl_allTrue all simp_thms)
  qed
  show ?thesis
    using c1 c2 c3 c4 c5 by (intro conjI allI impI)
qed

theorem foreach_bool_all_devices_witness:
  "\<not> isl (shardSize (exampleComm 4 12 None))
   \<and> foreach (exampleComm 4 12 None) (\<lambda>i b e calls. (True, calls @ [(i, b, e)])) True
       (position [3, 2, 1, 0]) []
       = Inr (True, [(3, 9, 12), (2, 6, 9), (1, 3, 6), (0, 0, 3)])
   \<and> mset (snd (projr (foreach (exampleComm 4 12 None) (\<lambda>i b e calls. (True, calls @ [(i, b, e)]))
                         True (position [3, 2, 1, 0]) [])))
       = mset [(0, 0, 3), (1, 3, 6), (2, 6, 9), (3, 9, 12)]
   \<and> fst (projr (foreach (exampleComm 4 12 None) (\<lambda>i b e calls. (i \<noteq> 2, calls @ [(i, b, e)]))
                   True (position [3, 2, 1, 0]) []))
       = False
   \<and> foreach (exampleComm 4 12 None) (\<lambda>i b e calls. (i \<noteq> 2, calls @ [(i, b, e)])) False
       (position [3, 2, 1, 0]) []
       = Inr (False, [(0, 0, 3), (1, 3, 6), (2, 6, 9), (3, 9, 12)])
   \<and> foldl allTrue True [True, False, True, True] = False"
proof -
  have s: "shardSize (exampleComm 4 12 None) = Inr 3"
    using ex_shardSize_None[of 4 3] by simp
  then have ok: "\<not> isl (shardSize (exampleComm 4 12 None))" by simp
  have r: "localShardRange (exampleComm 4 12 None) i = Inr (i * 3, i * 3 + 3)" if "i < 4" for i
    using ex_localShardRange_None[of 4 i 3] that by simp
  have u: "[0..<4] = [0, 1, 2, 3]" by (simp add: upt_rec)
  have a: "(\<forall>i<4. P i) \<longleftrightarrow> P 0 \<and> P 1 \<and> P 2 \<and> P (3::nat)" for P
    by (auto simp: numeral_eq_Suc less_Suc_eq)
  note t1 = foreach_bool_all_devices[OF ok, of "\<lambda>i b e. True" True "position [3, 2, 1, 0]" "[]"]
  note t2 = foreach_bool_all_devices[OF ok, of "\<lambda>i b e. i \<noteq> 2" True "position [3, 2, 1, 0]" "[]"]
  have reversed: "foreach (exampleComm 4 12 None) (\<lambda>i b e calls. (True, calls @ [(i, b, e)])) True
       (position [3, 2, 1, 0]) []
       = Inr (True, [(3, 9, 12), (2, 6, 9), (1, 3, 6), (0, 0, 3)])"
    by (simp add: foreach_def foreachAcc_def ex_length_graphs u r allTrue_def)
  have "foldl allTrue True [True, False, True, True] = False"
    by (simp add: allTrue_def)
  then show ?thesis
    using ok reversed t1[THEN conjunct2, THEN conjunct2, THEN conjunct1]
      t2[THEN conjunct2, THEN conjunct1]
      t2[THEN conjunct2, THEN conjunct2, THEN conjunct2, THEN conjunct1]
    by (simp add: ex_length_graphs u r a)
qed

section \<open>Properties of the all-gather\<close>

lemma world_rank_less:
  assumes "p < P" "i < D"
  shows "p * D + i < P * (D::nat)"
proof -
  have "p * D + i < p * D + D" using assms(2) by simp
  also have "\<dots> = (p + 1) * D" by simp
  also have "\<dots> \<le> P * D" using assms(1) by (intro mult_le_mono1) simp
  finally show ?thesis .
qed

lemma world_rank_div_mod:
  fixes i D p :: nat
  assumes "i < D"
  shows "(p * D + i) div D = p" and "(p * D + i) mod D = i"
proof -
  have "D \<noteq> 0" using assms by simp
  then have "(i + p * D) div D = p + i div D" by (rule div_mult_self1)
  moreover have "i div D = 0" using assms by simp
  ultimately have "(i + p * D) div D = p" by simp
  then show "(p * D + i) div D = p" by (simp only: add.commute)
  have "(i + p * D) mod D = i" using assms by simp
  then show "(p * D + i) mod D = i" by (simp only: add.commute)
qed

lemma world_graph_buffers:
  assumes "wf_world w D" "wf_buffers w tot" "p < length w" "i < D"
  shows "length (data (vals (graphs (w ! p) ! i))) = tot"
    and "length (data (grads (graphs (w ! p) ! i))) = tot"
proof -
  have "w ! p \<in> set w" using assms(3) by simp
  moreover have "graphs (w ! p) ! i \<in> set (graphs (w ! p))"
    using wf_world_ranks(3)[OF assms(1,3)] assms(4) by simp
  ultimately show "length (data (vals (graphs (w ! p) ! i))) = tot"
    and "length (data (grads (graphs (w ! p) ! i))) = tot"
    using assms(2) by (auto simp: wf_buffers_def)
qed

lemma world_dataSize:
  assumes "wf_world w D" "wf_buffers w tot" "p < length w"
  shows "dataSize (w ! p) = Inr tot"
proof -
  have D: "0 < D" using assms(1) by (simp add: wf_world_def)
  have len: "length (graphs (w ! p)) = D" using wf_world_ranks(3)[OF assms(1,3)] .
  then obtain g gs where g: "graphs (w ! p) = g # gs" using D by (cases "graphs (w ! p)") auto
  then have "g = graphs (w ! p) ! 0" by simp
  then have "length (data (vals g)) = tot"
    using world_graph_buffers(1)[OF assms D] by simp
  then show ?thesis by (simp add: dataSize_def g)
qed

lemma world_shardSize:
  assumes "wf_world w D" "wf_buffers w tot" "p < length w" "length w * D dvd tot"
  shows "shardSize (w ! p) = Inr (tot div (length w * D))"
  using shardSize_uniform[OF world_dataSize[OF assms(1-3)]]
    wf_world_ranks(1)[OF assms(1,3)] wf_world_pos[OF assms(1)] assms(4)
  by simp

lemma world_localShardRange:
  assumes "wf_world w D" "wf_buffers w tot" "p < length w" "length w * D dvd tot" "i < D"
  shows "localShardRange (w ! p) i
           = Inr ((p * D + i) * (tot div (length w * D)), (p * D + i + 1) * (tot div (length w * D)))"
proof -
  have r: "myNcclRank (w ! p) i < numNcclRanks (w ! p)"
    using wf_world_ranks(1,2)[OF assms(1,3)] world_rank_less[OF assms(3,5)] by simp
  have n: "0 < numNcclRanks (w ! p)" "numNcclRanks (w ! p) dvd tot"
    using wf_world_ranks(1)[OF assms(1,3)] wf_world_pos[OF assms(1)] assms(4) by simp_all
  show ?thesis
    using range_uniform[OF world_dataSize[OF assms(1-3)] n r] wf_world_ranks(1,2)[OF assms(1,3)]
    by (simp add: localShardRange_def)
qed

lemma allGather_calls_wf:
  assumes "wf_world w D" "wf_buffers w tot" "p < length w" "length w * D dvd tot"
  shows "mapM_err (allGather_call (w ! p)) [0..<length (graphs (w ! p))]
           = Inr (map (\<lambda>i. \<lparr>arg_sendbuff = drop ((p * D + i) * (tot div (length w * D)))
                                              (data (vals (graphs (w ! p) ! i))),
                              arg_recvOffset = 0,
                              arg_count = tot div (length w * D),
                              arg_dtype = ncclFloatType (ttype (vals (graphs (w ! p) ! i))),
                              arg_rank = p * D + i\<rparr>) [0..<D])"
proof -
  have len: "length (graphs (w ! p)) = D" using wf_world_ranks(3)[OF assms(1,3)] .
  show ?thesis
    unfolding len
    by (rule mapM_err_Inr)
       (simp add: allGather_call_def world_localShardRange[OF assms] world_shardSize[OF assms]
          wf_world_ranks(2)[OF assms(1,3)])
qed

lemma groupShards_wf:
  assumes "wf_world w D" "wf_buffers w tot" "length w * D dvd tot"
  shows "groupShards w
           = map (\<lambda>r. drop (r * (tot div (length w * D)))
                         (data (vals (graphs (w ! (r div D)) ! (r mod D)))))
               [0..<length w * D]"
proof -
  let ?s = "tot div (length w * D)"
  let ?h = "\<lambda>r. drop (r * ?s) (data (vals (graphs (w ! (r div D)) ! (r mod D))))"
  have "map (\<lambda>c. case mapM_err (allGather_call c) [0..<length (graphs c)] of
                        Inl e \<Rightarrow> [] | Inr calls \<Rightarrow> map arg_sendbuff calls)
          (map (\<lambda>p. w ! p) [0..<length w])
      = map (\<lambda>p. map (\<lambda>i. ?h (p * D + i)) [0..<D]) [0..<length w]"
    unfolding map_map
  proof (rule map_cong[OF refl])
    fix p assume "p \<in> set [0..<length w]"
    then have p: "p < length w" by simp
    have "map (\<lambda>i. drop ((p * D + i) * ?s) (data (vals (graphs (w ! p) ! i)))) [0..<D]
        = map (\<lambda>i. ?h (p * D + i)) [0..<D]"
      by (rule map_cong[OF refl]) (simp add: world_rank_div_mod)
    then show "((\<lambda>c. case mapM_err (allGather_call c) [0..<length (graphs c)] of
                        Inl e \<Rightarrow> [] | Inr calls \<Rightarrow> map arg_sendbuff calls) \<circ> (\<lambda>p. w ! p)) p
        = map (\<lambda>i. ?h (p * D + i)) [0..<D]"
      by (simp add: allGather_calls_wf[OF assms(1,2) p assms(3)] comp_def)
  qed
  then have "groupShards w = concat (map (\<lambda>p. map (\<lambda>i. ?h (p * D + i)) [0..<D]) [0..<length w])"
    by (simp add: groupShards_def map_nth)
  also have "\<dots> = map ?h [0..<length w * D]" by (rule concat_blocks)
  finally show ?thesis .
qed

lemma map_zip_upt:
  assumes "length gs = D"
  shows "map f (zip gs (map F [0..<D])) = map (\<lambda>i. f (gs ! i, F i)) [0..<D]"
  using assms by (intro nth_equalityI) simp_all

lemma gathered_length:
  fixes s :: nat
  assumes "\<And>r. r < N \<Longrightarrow> length (bufs r) = N * s"
  shows "length (concat (map (\<lambda>r. take s (drop (r * s) (bufs r))) [0..<N])) = N * s"
proof -
  have h: "map (\<lambda>r. length (take s (drop (r * s) (bufs r)))) [0..<N] = map (\<lambda>r. s) [0..<N]"
  proof (rule map_cong[OF refl])
    fix r assume "r \<in> set [0..<N]"
    then have r: "r < N" by simp
    then have "(r + 1) * s \<le> N * s" by (intro mult_le_mono1) simp
    then show "length (take s (drop (r * s) (bufs r))) = s"
      using assms[OF r] by simp
  qed
  have "length (concat (map (\<lambda>r. take s (drop (r * s) (bufs r))) [0..<N]))
      = sum_list (map (\<lambda>r. s) [0..<N])"
    by (simp only: length_concat map_map comp_def h)
  also have "\<dots> = N * s" by (simp add: sum_list_triv)
  finally show ?thesis .
qed

lemma allGatherParams_wf:
  fixes w :: "'a comm list"
  defines "gathered \<equiv> \<lambda>D tot. concat (map (\<lambda>r. take (tot div (length w * D))
                           (drop (r * (tot div (length w * D)))
                              (data (vals (graphs (w ! (r div D)) ! (r mod D))))))
                      [0..<length w * D])"
  assumes "wf_world w D" "wf_buffers w tot" "length w * D dvd tot" "p < length w"
  shows "allGatherParams (w ! p) (groupShards w)
           = Inr ((w ! p)\<lparr>graphs := map (\<lambda>i. (graphs (w ! p) ! i)\<lparr>vals :=
                     (vals (graphs (w ! p) ! i))\<lparr>data := gathered D tot\<rparr>\<rparr>) [0..<D]\<rparr>)"
    and "length (gathered D tot) = tot"
proof -
  let ?s = "tot div (length w * D)" and ?N = "length w * D"
  have len: "length (graphs (w ! p)) = D" using wf_world_ranks(3)[OF assms(2,5)] .
  have tot: "?N * ?s = tot" using assms(4) by simp
  have bl: "length (data (vals (graphs (w ! (r div D)) ! (r mod D)))) = ?N * ?s" if "r < ?N" for r
  proof -
    have D: "0 < D" using assms(2) by (simp add: wf_world_def)
    have "r div D < length w" using that by (simp add: less_mult_imp_div_less)
    moreover have "r mod D < D" using D by simp
    ultimately show ?thesis using world_graph_buffers(1)[OF assms(2,3)] tot by simp
  qed
  show gl: "length (gathered D tot) = tot"
    unfolding gathered_def using gathered_length[OF bl] tot by simp
  have ag: "ncclAllGather (groupShards w) ?s = gathered D tot"
    by (simp add: ncclAllGather_def groupShards_wf[OF assms(2-4)] gathered_def comp_def)
  have wr: "writeAt 0 (gathered D tot) (data (vals (graphs (w ! p) ! i))) = gathered D tot"
    if "i < D" for i
    using world_graph_buffers(1)[OF assms(2,3,5) that] gl by (simp add: writeAt_def)
  have "map (\<lambda>(g, a). g\<lparr>vals := (vals g)\<lparr>data :=
                writeAt (arg_recvOffset a) (ncclAllGather (groupShards w) (arg_count a))
                  (data (vals g))\<rparr>\<rparr>)
          (zip (graphs (w ! p))
             (map (\<lambda>i. \<lparr>arg_sendbuff = drop ((p * D + i) * ?s) (data (vals (graphs (w ! p) ! i))),
                        arg_recvOffset = 0, arg_count = ?s,
                        arg_dtype = ncclFloatType (ttype (vals (graphs (w ! p) ! i))),
                        arg_rank = p * D + i\<rparr>) [0..<D]))
      = map (\<lambda>i. (graphs (w ! p) ! i)\<lparr>vals :=
                     (vals (graphs (w ! p) ! i))\<lparr>data := gathered D tot\<rparr>\<rparr>) [0..<D]"
    unfolding map_zip_upt[OF len]
    by (rule map_cong[OF refl]) (simp add: ag wr)
  then show "allGatherParams (w ! p) (groupShards w)
           = Inr ((w ! p)\<lparr>graphs := map (\<lambda>i. (graphs (w ! p) ! i)\<lparr>vals :=
                     (vals (graphs (w ! p) ! i))\<lparr>data := gathered D tot\<rparr>\<rparr>) [0..<D]\<rparr>)"
    by (simp add: allGatherParams_def allGather_calls_wf[OF assms(2,3,5,4)])
qed

text \<open>
  Claim C2.  In a run whose number of global ranks divides the size of the buffers, after
  \<open>allGatherParams\<close> the parameters of every device are the concatenation, in ascending
  order of the global rank, of the shards the ranks contributed (rank \<open>r\<close> contributes the
  elements of its own parameters in its shard range), and they are the same on every device
  of every process.
\<close>

theorem allGatherParams_concat:
  assumes "wf_world w D" and "wf_buffers w tot" and "length w * D dvd tot"
    and "p < length w" and "i < D"
  shows "\<not> isl (allGatherParams (w ! p) (groupShards w))
       \<and> data (vals (graphs (projr (allGatherParams (w ! p) (groupShards w))) ! i))
           = concat (map (\<lambda>r. take (tot div (length w * D))
                                (drop (r * (tot div (length w * D)))
                                   (data (vals (graphs (w ! (r div D)) ! (r mod D))))))
                       [0..<length w * D])
       \<and> length (data (vals (graphs (projr (allGatherParams (w ! p) (groupShards w))) ! i))) = tot
       \<and> (\<forall>q<length w. \<forall>j<D.
             data (vals (graphs (projr (allGatherParams (w ! q) (groupShards w))) ! j))
               = data (vals (graphs (projr (allGatherParams (w ! p) (groupShards w))) ! i)))"
proof -
  let ?g = "concat (map (\<lambda>r. take (tot div (length w * D))
                                (drop (r * (tot div (length w * D)))
                                   (data (vals (graphs (w ! (r div D)) ! (r mod D))))))
                       [0..<length w * D])"
  have res: "data (vals (graphs (projr (allGatherParams (w ! q) (groupShards w))) ! j)) = ?g"
    and ok: "\<not> isl (allGatherParams (w ! q) (groupShards w))"
    if "q < length w" "j < D" for q j
    using allGatherParams_wf(1)[OF assms(1-3) that(1)] that(2) by simp_all
  have len: "length ?g = tot" using allGatherParams_wf(2)[OF assms(1-4)] .
  show ?thesis
    using res[OF assms(4,5)] ok[OF assms(4,5)] res len by simp
qed

theorem allGatherParams_concat_witness:
  "wf_world seededWorld 2 \<and> wf_buffers seededWorld 4 \<and> length seededWorld * 2 dvd (4::nat)
   \<and> \<not> isl (allGatherParams (seededWorld ! 1) (groupShards seededWorld))
   \<and> data (vals (graphs (projr (allGatherParams (seededWorld ! 1) (groupShards seededWorld))) ! 0))
       = [10, 21, 32, 43]"
proof -
  have wf: "wf_world seededWorld 2"
    by (auto simp: wf_world_def seededWorld_def less_Suc_eq)
  have wb: "wf_buffers seededWorld 4"
    by (simp add: wf_buffers_def seededWorld_def mkGraph_def)
  have len: "length seededWorld = 2" by (simp add: seededWorld_def)
  have dv: "length seededWorld * 2 dvd (4::nat)" by (simp add: len)
  have p: "1 < length seededWorld" by (simp add: len)
  have i: "(0::nat) < 2" by simp
  have u: "[0..<4] = [0, 1, 2, 3]" by (simp add: upt_rec)
  have g: "data (vals (graphs (seededWorld ! 0) ! 0)) = [10, 11, 12, 13]"
    "data (vals (graphs (seededWorld ! 0) ! Suc 0)) = [20, 21, 22, 23]"
    "data (vals (graphs (seededWorld ! Suc 0) ! 0)) = [30, 31, 32, 33]"
    "data (vals (graphs (seededWorld ! Suc 0) ! Suc 0)) = [40, 41, 42, 43]"
    by (simp_all add: seededWorld_def mkGraph_def)
  note t = allGatherParams_concat[OF wf wb dv p i]
  have "data (vals (graphs (projr (allGatherParams (seededWorld ! 1) (groupShards seededWorld))) ! 0))
       = [10, 21, 32, 43]"
    using t[THEN conjunct2, THEN conjunct1] by (simp add: len u g)
  then show ?thesis
    using wf wb dv t[THEN conjunct1] by simp
qed

section \<open>Properties of the reduce-scatter\<close>

lemma writeAt_length:
  assumes "off + length xs \<le> length buf"
  shows "length (writeAt off xs buf) = length buf"
  using assms by (simp add: writeAt_def)

lemma writeAt_nth:
  assumes "off + length xs \<le> length buf" "k < length buf"
  shows "writeAt off xs buf ! k
           = (if off \<le> k \<and> k < off + length xs then xs ! (k - off) else buf ! k)"
  using assms by (auto simp: writeAt_def nth_append)

lemma resetGrads_masked:
  fixes gs :: "('a::zero) graph list"
  assumes "b \<le> e" "e \<le> length (data (grads (gs ! i)))"
  shows "resetGrads i b e gs
           = (True, gs[i := (gs ! i)\<lparr>grads := (grads (gs ! i))\<lparr>data :=
                 map (\<lambda>k. if b \<le> k \<and> k < e then data (grads (gs ! i)) ! k else 0)
                   [0..<length (data (grads (gs ! i)))]\<rparr>\<rparr>])"
proof -
  let ?d = "data (grads (gs ! i))"
  let ?d1 = "if b > 0 then writeAt 0 (replicate b 0) ?d else ?d"
  let ?d2 = "if e < length ?d then writeAt e (replicate (length ?d - e) 0) ?d1 else ?d1"
  have be: "b \<le> length ?d" using assms by simp
  have l1: "length ?d1 = length ?d" using be by (simp add: writeAt_length)
  have n1: "?d1 ! k = (if b \<le> k then ?d ! k else 0)" if "k < length ?d" for k
    using that be by (simp add: writeAt_nth)
  have l2: "length ?d2 = length ?d" using assms(2) l1 by (simp add: writeAt_length)
  have n2: "?d2 ! k = (if b \<le> k \<and> k < e then ?d ! k else 0)" if "k < length ?d" for k
  proof (cases "e < length ?d")
    case True
    then have "?d2 ! k = (if e \<le> k then 0 else ?d1 ! k)"
      using that l1 by (simp add: writeAt_nth)
    then show ?thesis using n1[OF that] by auto
  next
    case False
    then have "e = length ?d" using assms(2) by simp
    then show ?thesis using n1[OF that] that by simp
  qed
  have "?d2 = map (\<lambda>k. if b \<le> k \<and> k < e then ?d ! k else 0) [0..<length ?d]"
    by (rule nth_equalityI) (simp_all only: l2 length_map length_upt diff_zero n2 nth_map_upt add_0)
  then show ?thesis by (simp add: resetGrads_def Let_def)
qed

lemma runDevices_resetGrads:
  fixes gs :: "('a::zero) graph list"
  assumes "distinct is"
    and "\<And>i. i \<in> set is \<Longrightarrow> i < length gs \<and> fst (rng i) \<le> snd (rng i)
            \<and> snd (rng i) \<le> length (data (grads (gs ! i)))"
  shows "length (snd (runDevices resetGrads rng is gs)) = length gs
       \<and> (\<forall>j<length gs. snd (runDevices resetGrads rng is gs) ! j
             = (if j \<in> set is
                then (gs ! j)\<lparr>grads := (grads (gs ! j))\<lparr>data :=
                        map (\<lambda>k. if fst (rng j) \<le> k \<and> k < snd (rng j)
                                 then data (grads (gs ! j)) ! k else 0)
                          [0..<length (data (grads (gs ! j)))]\<rparr>\<rparr>
                else gs ! j))"
  using assms
proof (induction "is" arbitrary: gs)
  case Nil
  show ?case by simp
next
  case (Cons i "is")
  let ?M = "\<lambda>j. (gs ! j)\<lparr>grads := (grads (gs ! j))\<lparr>data :=
                        map (\<lambda>k. if fst (rng j) \<le> k \<and> k < snd (rng j)
                                 then data (grads (gs ! j)) ! k else 0)
                          [0..<length (data (grads (gs ! j)))]\<rparr>\<rparr>"
  define gs1 where "gs1 = gs[i := ?M i]"
  have i: "i < length gs" "fst (rng i) \<le> snd (rng i)" "snd (rng i) \<le> length (data (grads (gs ! i)))"
    using Cons.prems(2)[of i] by simp_all
  have step: "resetGrads i (fst (rng i)) (snd (rng i)) gs = (True, gs1)"
    using resetGrads_masked[OF i(2,3)] by (simp add: gs1_def)
  have notin: "i \<notin> set is" and dis: "distinct is" using Cons.prems(1) by simp_all
  have same: "gs1 ! j = gs ! j" if "j \<in> set is" for j
  proof -
    from that notin have "i \<noteq> j" by auto
    then show ?thesis unfolding gs1_def by (rule nth_list_update_neq)
  qed
  have pre: "j < length gs1 \<and> fst (rng j) \<le> snd (rng j)
            \<and> snd (rng j) \<le> length (data (grads (gs1 ! j)))" if "j \<in> set is" for j
    using Cons.prems(2)[of j] that same[OF that] by (simp add: gs1_def)
  note ih = Cons.IH[OF dis pre]
  obtain rs gs2 where rd: "runDevices resetGrads rng is gs1 = (rs, gs2)"
    by (cases "runDevices resetGrads rng is gs1")
  have res: "snd (runDevices resetGrads rng (i # is) gs) = gs2"
    by (simp add: step rd)
  have len: "length gs2 = length gs" using ih rd by (simp add: gs1_def)
  have nth: "gs2 ! j = (if j \<in> set (i # is) then ?M j else gs ! j)" if "j < length gs" for j
  proof (cases "j \<in> set is")
    case True
    then have "gs2 ! j = (gs1 ! j)\<lparr>grads := (grads (gs1 ! j))\<lparr>data :=
                        map (\<lambda>k. if fst (rng j) \<le> k \<and> k < snd (rng j)
                                 then data (grads (gs1 ! j)) ! k else 0)
                          [0..<length (data (grads (gs1 ! j)))]\<rparr>\<rparr>"
      using ih rd that by (simp add: gs1_def)
    then show ?thesis using True same[OF True] by simp
  next
    case False
    then have "gs2 ! j = gs1 ! j" using ih rd that by (simp add: gs1_def)
    then show ?thesis using False that by (simp add: gs1_def nth_list_update)
  qed
  show ?case using len nth by (simp only: res) simp
qed

lemma shard_frame:
  assumes "length gs = length (graphs c)"
    and "map (\<lambda>g. length (data (vals g))) gs = map (\<lambda>g. length (data (vals g))) (graphs c)"
  shows "localShardRange (c\<lparr>graphs := gs\<rparr>) i = localShardRange c i"
proof -
  have n: "numNcclRanks (c\<lparr>graphs := gs\<rparr>) = numNcclRanks c"
    and m: "myNcclRank (c\<lparr>graphs := gs\<rparr>) i = myNcclRank c i"
    using assms(1) by (simp_all add: numNcclRanks_def myNcclRank_def split: option.splits)
  have d: "dataSize (c\<lparr>graphs := gs\<rparr>) = dataSize c"
    using assms by (cases gs; cases "graphs c") (simp_all add: dataSize_def)
  have "shardSize (c\<lparr>graphs := gs\<rparr>) = shardSize c"
    by (simp add: shardSize_def n d)
  then show ?thesis
    by (simp add: localShardRange_def ncclRankShardRange_def m d cong: sum.case_cong)
qed

lemma scatterReduce_calls_wf:
  assumes "wf_world w D" "wf_buffers w tot" "p < length w" "length w * D dvd tot"
  shows "mapM_err (scatterReduce_call (w ! p)) [0..<length (graphs (w ! p))]
           = Inr (map (\<lambda>i. \<lparr>arg_sendbuff = data (grads (graphs (w ! p) ! i)),
                              arg_recvOffset = (p * D + i) * (tot div (length w * D)),
                              arg_count = tot div (length w * D),
                              arg_dtype = ncclFloatType (ttype (grads (graphs (w ! p) ! i))),
                              arg_rank = p * D + i\<rparr>) [0..<D])"
proof -
  have len: "length (graphs (w ! p)) = D" using wf_world_ranks(3)[OF assms(1,3)] .
  show ?thesis
    unfolding len
    by (rule mapM_err_Inr)
       (simp add: scatterReduce_call_def world_localShardRange[OF assms] world_shardSize[OF assms]
          wf_world_ranks(2)[OF assms(1,3)])
qed

lemma ncclReduceScatter_block:
  "length (ncclReduceScatter bufs n r) = n"
  "j < n \<Longrightarrow> ncclReduceScatter bufs n r ! j = sum_list (map (\<lambda>b. b ! (r * n + j)) bufs)"
  by (simp_all add: ncclReduceScatter_def)

lemma groupGrads_wf:
  assumes "wf_world w D" "wf_buffers w tot" "length w * D dvd tot"
  shows "groupGrads w = map (rankGrads w D) [0..<length w * D]"
proof -
  have "map (\<lambda>c. case mapM_err (scatterReduce_call c) [0..<length (graphs c)] of
                        Inl e \<Rightarrow> [] | Inr calls \<Rightarrow> map arg_sendbuff calls)
          (map (\<lambda>p. w ! p) [0..<length w])
      = map (\<lambda>p. map (\<lambda>i. rankGrads w D (p * D + i)) [0..<D]) [0..<length w]"
    unfolding map_map
  proof (rule map_cong[OF refl])
    fix p assume "p \<in> set [0..<length w]"
    then have p: "p < length w" by simp
    have "map (\<lambda>i. data (grads (graphs (w ! p) ! i))) [0..<D]
        = map (\<lambda>i. rankGrads w D (p * D + i)) [0..<D]"
      by (rule map_cong[OF refl]) (simp add: world_rank_div_mod rankGrads_def)
    then show "((\<lambda>c. case mapM_err (scatterReduce_call c) [0..<length (graphs c)] of
                        Inl e \<Rightarrow> [] | Inr calls \<Rightarrow> map arg_sendbuff calls) \<circ> (\<lambda>p. w ! p)) p
        = map (\<lambda>i. rankGrads w D (p * D + i)) [0..<D]"
      by (simp add: scatterReduce_calls_wf[OF assms(1,2) p assms(3)] comp_def)
  qed
  then have "groupGrads w
      = concat (map (\<lambda>p. map (\<lambda>i. rankGrads w D (p * D + i)) [0..<D]) [0..<length w])"
    by (simp add: groupGrads_def map_nth)
  also have "\<dots> = map (rankGrads w D) [0..<length w * D]" by (rule concat_blocks)
  finally show ?thesis .
qed

lemma own_sendbufs:
  assumes "\<And>a. a \<in> set calls \<Longrightarrow> G ! arg_rank a = arg_sendbuff a"
  shows "foldl (\<lambda>bufs a. bufs[arg_rank a := arg_sendbuff a]) G calls = G"
  using assms
proof (induction calls)
  case Nil
  show ?case by simp
next
  case (Cons a calls)
  have "G[arg_rank a := arg_sendbuff a] = G"
    using Cons.prems[of a] list_update_id[of G "arg_rank a"] by simp
  then show ?case using Cons by simp
qed

lemma scatterReduceAndResetGrads_wf:
  fixes w :: "('a::comm_monoid_add) comm list"
  assumes wf: "wf_world w D" and wb: "wf_buffers w tot" and dv: "length w * D dvd tot"
    and p: "p < length w"
  shows "scatterReduceAndResetGrads (w ! p) (groupGrads w) prio
           = Inr ((w ! p)\<lparr>graphs := map (\<lambda>i. (graphs (w ! p) ! i)\<lparr>grads :=
                     (grads (graphs (w ! p) ! i))\<lparr>data :=
                        map (\<lambda>k. if (p * D + i) * (tot div (length w * D)) \<le> k
                                     \<and> k < (p * D + i + 1) * (tot div (length w * D))
                                 then sum_list (map (\<lambda>b. b ! k) (groupGrads w)) else 0)
                          [0..<tot]\<rparr>\<rparr>) [0..<D]\<rparr>)"
proof -
  let ?c = "w ! p" and ?s = "tot div (length w * D)" and ?G = "groupGrads w"
  let ?b = "\<lambda>i. (p * D + i) * ?s" and ?e = "\<lambda>i. (p * D + i + 1) * ?s"
  let ?rng = "\<lambda>i. (?b i, ?e i)"
  define gs where "gs = map (\<lambda>i. (graphs ?c ! i)\<lparr>grads := (grads (graphs ?c ! i))\<lparr>data :=
      writeAt (?b i) (ncclReduceScatter ?G ?s (p * D + i)) (data (grads (graphs ?c ! i)))\<rparr>\<rparr>) [0..<D]"
  have len: "length (graphs ?c) = D" using wf_world_ranks(3)[OF wf p] .
  have tot: "length w * D * ?s = tot" using dv by simp
  have e_le: "?e i \<le> tot" if "i < D" for i
  proof -
    have "p * D + i + 1 \<le> length w * D" using world_rank_less[OF p that] by simp
    then have "?e i \<le> length w * D * ?s" by (rule mult_le_mono1)
    then show ?thesis using tot by simp
  qed
  have be: "?b i + ?s = ?e i" for i by simp
  have old: "length (data (grads (graphs ?c ! i))) = tot" if "i < D" for i
    using world_graph_buffers(2)[OF wf wb p that] .
  \<comment> \<open>the graphs after the collective call\<close>
  have gs_len: "length gs = D" by (simp add: gs_def)
  have gs_nth: "gs ! i = (graphs ?c ! i)\<lparr>grads := (grads (graphs ?c ! i))\<lparr>data :=
      writeAt (?b i) (ncclReduceScatter ?G ?s (p * D + i)) (data (grads (graphs ?c ! i)))\<rparr>\<rparr>"
    if "i < D" for i using that by (simp add: gs_def)
  have fit: "?b i + length (ncclReduceScatter ?G ?s (p * D + i)) \<le> length (data (grads (graphs ?c ! i)))"
    if "i < D" for i
    using e_le[OF that] old[OF that] be[of i] by (simp only: ncclReduceScatter_block(1))
  have gs_data_len: "length (data (grads (gs ! i))) = tot" if "i < D" for i
    using writeAt_length[OF fit[OF that]] old[OF that] by (simp add: gs_nth[OF that])
  have gs_data_nth: "data (grads (gs ! i)) ! k = sum_list (map (\<lambda>b. b ! k) ?G)"
    if "i < D" "?b i \<le> k" "k < ?e i" for i k
  proof -
    have k: "k < length (data (grads (graphs ?c ! i)))"
      using that(3) e_le[OF that(1)] old[OF that(1)] by simp
    have j: "k - ?b i < ?s" using that(2,3) be[of i] by linarith
    have "data (grads (gs ! i)) ! k = ncclReduceScatter ?G ?s (p * D + i) ! (k - ?b i)"
      using writeAt_nth[OF fit[OF that(1)] k] that(2,3) be[of i]
      by (simp add: gs_nth[OF that(1)] ncclReduceScatter_block(1))
    also have "\<dots> = sum_list (map (\<lambda>b. b ! (?b i + (k - ?b i))) ?G)"
      using ncclReduceScatter_block(2)[OF j] .
    also have "?b i + (k - ?b i) = k" using that(2) by simp
    finally show ?thesis .
  qed
  have G: "?G = map (rankGrads w D) [0..<length w * D]"
    using groupGrads_wf[OF wf wb dv] .
  have own: "foldl (\<lambda>bufs a. bufs[arg_rank a := arg_sendbuff a]) ?G
          (map (\<lambda>i. \<lparr>arg_sendbuff = data (grads (graphs ?c ! i)),
                        arg_recvOffset = ?b i, arg_count = ?s,
                        arg_dtype = ncclFloatType (ttype (grads (graphs ?c ! i))),
                        arg_rank = p * D + i\<rparr>) [0..<D]) = ?G"
  proof (rule own_sendbufs)
    fix a
    assume "a \<in> set (map (\<lambda>i. \<lparr>arg_sendbuff = data (grads (graphs ?c ! i)),
                        arg_recvOffset = ?b i, arg_count = ?s,
                        arg_dtype = ncclFloatType (ttype (grads (graphs ?c ! i))),
                        arg_rank = p * D + i\<rparr>) [0..<D])"
    then obtain i where i: "i < D"
      and a: "a = \<lparr>arg_sendbuff = data (grads (graphs ?c ! i)),
                        arg_recvOffset = ?b i, arg_count = ?s,
                        arg_dtype = ncclFloatType (ttype (grads (graphs ?c ! i))),
                        arg_rank = p * D + i\<rparr>"
      by auto
    have "?G ! (p * D + i) = rankGrads w D (p * D + i)"
      using world_rank_less[OF p i] by (simp only: G nth_map_upt add_0 length_upt diff_zero)
    also have "\<dots> = data (grads (graphs ?c ! i))"
      by (simp only: rankGrads_def world_rank_div_mod[OF i])
    finally show "?G ! arg_rank a = arg_sendbuff a" by (simp add: a)
  qed
  have calls: "map (\<lambda>(g, a). g\<lparr>grads := (grads g)\<lparr>data :=
                  writeAt (arg_recvOffset a) (ncclReduceScatter ?G (arg_count a) (arg_rank a))
                    (data (grads g))\<rparr>\<rparr>)
          (zip (graphs ?c)
             (map (\<lambda>i. \<lparr>arg_sendbuff = data (grads (graphs ?c ! i)),
                        arg_recvOffset = ?b i, arg_count = ?s,
                        arg_dtype = ncclFloatType (ttype (grads (graphs ?c ! i))),
                        arg_rank = p * D + i\<rparr>) [0..<D])) = gs"
    unfolding map_zip_upt[OF len] gs_def by simp
  \<comment> \<open>the shard ranges seen by the reset\<close>
  have vals_same: "map (\<lambda>g. length (data (vals g))) gs = map (\<lambda>g. length (data (vals g))) (graphs ?c)"
    using len by (intro nth_equalityI) (simp_all add: gs_def)
  have rng: "localShardRange (?c\<lparr>graphs := gs\<rparr>) i = Inr (?rng i)" if "i < length (graphs (?c\<lparr>graphs := gs\<rparr>))" for i
  proof -
    from that have i: "i < D" by (simp add: gs_len)
    have "localShardRange (?c\<lparr>graphs := gs\<rparr>) i = localShardRange ?c i"
      by (rule shard_frame) (simp_all add: gs_len len vals_same)
    then show ?thesis using world_localShardRange[OF wf wb p dv i] by simp
  qed
  \<comment> \<open>the reset, in the order of the schedule\<close>
  define order where "order = (if True \<and> 1 < D then sort_key prio [0..<D] else [0..<D])"
  have ord: "distinct order" "set order = {0..<D}"
    by (simp_all add: order_def)
  have pre: "i < length gs \<and> fst (?rng i) \<le> snd (?rng i)
            \<and> snd (?rng i) \<le> length (data (grads (gs ! i)))" if "i \<in> set order" for i
  proof -
    from that have i: "i < D" by (simp add: ord(2))
    show ?thesis using e_le[OF i] gs_data_len[OF i] i by (simp add: gs_len)
  qed
  note rd = runDevices_resetGrads[of order gs ?rng, OF ord(1) pre]
  have fin: "snd (runDevices resetGrads ?rng order gs)
      = map (\<lambda>i. (graphs ?c ! i)\<lparr>grads := (grads (graphs ?c ! i))\<lparr>data :=
                        map (\<lambda>k. if ?b i \<le> k \<and> k < ?e i
                                 then sum_list (map (\<lambda>b. b ! k) ?G) else 0)
                          [0..<tot]\<rparr>\<rparr>) [0..<D]"
  proof (rule nth_equalityI)
    show "length (snd (runDevices resetGrads ?rng order gs)) = length (map (\<lambda>i. (graphs ?c ! i)\<lparr>grads := (grads (graphs ?c ! i))\<lparr>data :=
                        map (\<lambda>k. if ?b i \<le> k \<and> k < ?e i
                                 then sum_list (map (\<lambda>b. b ! k) ?G) else 0)
                          [0..<tot]\<rparr>\<rparr>) [0..<D])"
      using rd by (simp add: gs_len)
  next
    fix i assume "i < length (snd (runDevices resetGrads ?rng order gs))"
    then have i: "i < D" using rd by (simp add: gs_len)
    have "snd (runDevices resetGrads ?rng order gs) ! i
        = (gs ! i)\<lparr>grads := (grads (gs ! i))\<lparr>data :=
              map (\<lambda>k. if ?b i \<le> k \<and> k < ?e i then data (grads (gs ! i)) ! k else 0)
                [0..<tot]\<rparr>\<rparr>"
      using rd i by (simp add: gs_len gs_data_len[OF i] ord(2))
    also have "map (\<lambda>k. if ?b i \<le> k \<and> k < ?e i then data (grads (gs ! i)) ! k else 0) [0..<tot]
        = map (\<lambda>k. if ?b i \<le> k \<and> k < ?e i then sum_list (map (\<lambda>b. b ! k) ?G) else 0) [0..<tot]"
      by (rule map_cong[OF refl]) (simp add: gs_data_nth[OF i])
    finally show "snd (runDevices resetGrads ?rng order gs) ! i
        = map (\<lambda>i. (graphs ?c ! i)\<lparr>grads := (grads (graphs ?c ! i))\<lparr>data :=
                        map (\<lambda>k. if ?b i \<le> k \<and> k < ?e i
                                 then sum_list (map (\<lambda>b. b ! k) ?G) else 0)
                          [0..<tot]\<rparr>\<rparr>) [0..<D] ! i"
      using i by (simp add: gs_nth[OF i])
  qed
  have resT: "fst (resetGrads i b e gs') = True" for i b e and gs' :: "'a graph list"
    by (simp add: resetGrads_def Let_def)
  have "foreach (?c\<lparr>graphs := gs\<rparr>) resetGrads True prio gs
      = Inr (foldl allTrue True (map (\<lambda>i. True) [0..<D]),
             snd (runDevices resetGrads ?rng order gs))"
    unfolding foreach_def order_def
    using foreachAcc_run[of "?c\<lparr>graphs := gs\<rparr>" ?rng resetGrads "\<lambda>i b e. True", OF rng resT,
        of allTrue True True prio gs]
    by (simp add: gs_len)
  then have run: "foreach (?c\<lparr>graphs := gs\<rparr>) resetGrads True prio gs
      = Inr (foldl allTrue True (map (\<lambda>i. True) [0..<D]),
             map (\<lambda>i. (graphs ?c ! i)\<lparr>grads := (grads (graphs ?c ! i))\<lparr>data :=
                        map (\<lambda>k. if ?b i \<le> k \<and> k < ?e i
                                 then sum_list (map (\<lambda>b. b ! k) ?G) else 0)
                          [0..<tot]\<rparr>\<rparr>) [0..<D])"
    by (simp only: fin)
  show ?thesis
    unfolding scatterReduceAndResetGrads_def scatterReduce_calls_wf[OF wf wb p dv]
    by (simp only: sum.case Let_def own calls run prod.case)
qed

text \<open>
  Where the number of global ranks does not divide the size of the buffers, neither
  collective operation returns: both abort in \<open>shardSize\<close> on their first device.
\<close>

lemma mapM_err_first_Inl:
  assumes "f x = Inl e"
  shows "mapM_err f (x # xs) = Inl e"
  using assms by simp

lemma collectives_uneven_abort:
  fixes w :: "('a::comm_monoid_add) comm list"
  assumes "wf_world w D" and "wf_buffers w tot" and "\<not> length w * D dvd tot" and "p < length w"
  shows "scatterReduceAndResetGrads (w ! p) bufs prio
           = Inl (Abort ''presently, all shards must have the same size'')"
    and "allGatherParams (w ! p) bufs
           = Inl (Abort ''presently, all shards must have the same size'')"
proof -
  let ?e = "Abort ''presently, all shards must have the same size''"
  have len: "length (graphs (w ! p)) = D" using wf_world_ranks(3)[OF assms(1,4)] .
  have D: "0 < D" using assms(1) by (simp add: wf_world_def)
  then have u: "[0..<length (graphs (w ! p))] = 0 # [1..<D]"
    by (simp add: len upt_conv_Cons)
  have "shardSize (w ! p) = Inl ?e"
    using shardSize_uneven[OF world_dataSize[OF assms(1,2,4)]]
      wf_world_ranks(1)[OF assms(1,4)] wf_world_pos[OF assms(1)] assms(3)
    by simp
  then have r: "localShardRange (w ! p) i = Inl ?e" for i
    by (rule localShardRange_shardSize_Inl)
  have "scatterReduce_call (w ! p) 0 = Inl ?e" by (simp add: scatterReduce_call_def r)
  then have "mapM_err (scatterReduce_call (w ! p)) [0..<length (graphs (w ! p))] = Inl ?e"
    unfolding u by (rule mapM_err_first_Inl)
  then show "scatterReduceAndResetGrads (w ! p) bufs prio = Inl ?e"
    by (simp add: scatterReduceAndResetGrads_def)
  have "allGather_call (w ! p) 0 = Inl ?e" by (simp add: allGather_call_def r)
  then have "mapM_err (allGather_call (w ! p)) [0..<length (graphs (w ! p))] = Inl ?e"
    unfolding u by (rule mapM_err_first_Inl)
  then show "allGatherParams (w ! p) bufs = Inl ?e"
    by (simp add: allGatherParams_def)
qed

text \<open>
  Claim C1.  In a run of \<open>N\<close> global ranks, where \<open>N\<close> divides the size of the buffers, the
  send buffers the calls of the run hand to the reduce-scatter are the gradients of the
  ranks, and after \<open>scatterReduceAndResetGrads\<close>, under every schedule of the reset, the
  gradients of every local device hold, at every index of the device's own shard range, the
  sum over all ranks of the gradients at that index before the call, and zero at every other
  index.  In particular, when every rank holds ones, every element in the shard is \<open>N\<close> and
  every element outside it is zero.
\<close>

theorem scatterReduceAndResetGrads_sum:
  fixes w :: "('a::semiring_1) comm list"
  assumes "wf_world w D" and "wf_buffers w tot" and "length w * D dvd tot"
    and "p < length w" and "i < D"
  shows "\<not> isl (scatterReduceAndResetGrads (w ! p) (groupGrads w) prio)
       \<and> groupGrads w = map (rankGrads w D) [0..<length w * D]
       \<and> data (grads (graphs (projr (scatterReduceAndResetGrads (w ! p) (groupGrads w) prio)) ! i))
           = map (\<lambda>k. if k \<in> rangeSet (localShardRange (w ! p) i)
                       then sum_list (map (\<lambda>r. rankGrads w D r ! k) [0..<length w * D]) else 0)
               [0..<tot]
       \<and> ((\<forall>r<length w * D. rankGrads w D r = replicate tot 1) \<longrightarrow>
            data (grads (graphs (projr (scatterReduceAndResetGrads (w ! p) (groupGrads w) prio)) ! i))
              = map (\<lambda>k. if k \<in> rangeSet (localShardRange (w ! p) i)
                          then of_nat (length w * D) else 0) [0..<tot])"
proof -
  let ?s = "tot div (length w * D)" and ?G = "groupGrads w" and ?N = "length w * D"
  let ?res = "data (grads (graphs (projr (scatterReduceAndResetGrads (w ! p) ?G prio)) ! i))"
  have run: "\<not> isl (scatterReduceAndResetGrads (w ! p) ?G prio)"
    by (simp add: scatterReduceAndResetGrads_wf[OF assms(1-4)])
  have G: "?G = map (rankGrads w D) [0..<?N]"
    using groupGrads_wf[OF assms(1-3)] .
  have sums: "sum_list (map (\<lambda>b. b ! k) ?G) = sum_list (map (\<lambda>r. rankGrads w D r ! k) [0..<?N])"
    for k
    by (simp only: G map_map comp_def)
  have rs: "k \<in> rangeSet (localShardRange (w ! p) i)
      \<longleftrightarrow> (p * D + i) * ?s \<le> k \<and> k < (p * D + i + 1) * ?s" for k
    by (simp add: world_localShardRange[OF assms(1,2,4,3,5)])
  have "?res = map (\<lambda>k. if (p * D + i) * ?s \<le> k \<and> k < (p * D + i + 1) * ?s
                        then sum_list (map (\<lambda>b. b ! k) ?G) else 0) [0..<tot]"
    using assms(5) by (simp add: scatterReduceAndResetGrads_wf[OF assms(1-4)])
  then have res: "?res = map (\<lambda>k. if k \<in> rangeSet (localShardRange (w ! p) i)
                       then sum_list (map (\<lambda>r. rankGrads w D r ! k) [0..<?N]) else 0) [0..<tot]"
    by (simp only: rs sums)
  have ones: "?res = map (\<lambda>k. if k \<in> rangeSet (localShardRange (w ! p) i)
                          then of_nat ?N else 0) [0..<tot]"
    if all: "\<forall>r<?N. rankGrads w D r = replicate tot 1"
  proof -
    have "sum_list (map (\<lambda>r. rankGrads w D r ! k) [0..<?N]) = (of_nat ?N :: 'a)" if "k < tot" for k
    proof -
      have "map (\<lambda>r. rankGrads w D r ! k) [0..<?N] = map (\<lambda>r. 1) [0..<?N]"
        using all that by (intro map_cong[OF refl]) auto
      then have "sum_list (map (\<lambda>r. rankGrads w D r ! k) [0..<?N])
          = sum_list (map (\<lambda>r. (1::'a)) [0..<?N])"
        by (simp only:)
      also have "\<dots> = of_nat (length [0..<?N])" by (simp add: sum_list_triv)
      finally show ?thesis by simp
    qed
    then have "map (\<lambda>k. if k \<in> rangeSet (localShardRange (w ! p) i)
                       then sum_list (map (\<lambda>r. rankGrads w D r ! k) [0..<?N]) else 0) [0..<tot]
        = map (\<lambda>k. if k \<in> rangeSet (localShardRange (w ! p) i)
                          then of_nat ?N else (0::'a)) [0..<tot]"
      by (intro map_cong[OF refl]) simp
    with res show ?thesis by (simp only:)
  qed
  show ?thesis using run G res ones by blast
qed

theorem scatterReduceAndResetGrads_sum_witness:
  "wf_world (exampleWorld 2 2 4) 2 \<and> wf_buffers (exampleWorld 2 2 4) 4
   \<and> length (exampleWorld 2 2 4) * 2 dvd (4::nat)
   \<and> \<not> isl (scatterReduceAndResetGrads (exampleWorld 2 2 4 ! 1) (groupGrads (exampleWorld 2 2 4))
              (position [1, 0]))
   \<and> data (grads (graphs (projr (scatterReduceAndResetGrads (exampleWorld 2 2 4 ! 1)
                                       (groupGrads (exampleWorld 2 2 4)) (position [1, 0]))) ! 0))
       = [0, 0, 4, 0]
   \<and> groupGrads seededWorld = [[1, 1, 1, 1], [1, 2, 3, 4], [10, 10, 10, 10], [100, 200, 300, 400]]
   \<and> data (grads (graphs (projr (scatterReduceAndResetGrads (seededWorld ! 1)
                                       (groupGrads seededWorld) (position [1, 0]))) ! 0))
       = [0, 0, 314, 0]"
proof -
  have u4: "[0..<4] = [0, 1, 2, 3]" and u2: "[0..<2] = [0, 1]" by (simp_all add: upt_rec)
  have a: "(\<forall>r<4. P r) \<longleftrightarrow> P 0 \<and> P 1 \<and> P 2 \<and> P (3::nat)" for P
    by (auto simp: numeral_eq_Suc less_Suc_eq)
  \<comment> \<open>every rank holds ones\<close>
  have wf: "wf_world (exampleWorld 2 2 4) 2"
    by (rule wf_exampleWorld) simp_all
  have wb: "wf_buffers (exampleWorld 2 2 4) 4"
    by (simp add: wf_buffers_def exampleWorld_def exampleComm_def mkGraph_def)
  have len: "length (exampleWorld 2 2 4) = 2" by (simp add: exampleWorld_def)
  have dv: "length (exampleWorld 2 2 4) * 2 dvd (4::nat)" by (simp add: len)
  have p: "1 < length (exampleWorld 2 2 4)" by (simp add: len)
  have i: "(0::nat) < 2" by simp
  have "\<forall>r<4. rankGrads (exampleWorld 2 2 4) 2 r = replicate 4 1"
    unfolding a by (simp add: rankGrads_def exampleWorld_def exampleComm_def mkGraph_def u2)
  then have all: "\<forall>r<length (exampleWorld 2 2 4) * 2. rankGrads (exampleWorld 2 2 4) 2 r = replicate 4 1"
    by (simp add: len)
  have r: "rangeSet (localShardRange (exampleWorld 2 2 4 ! Suc 0) 0) = {2..<3}"
    using world_localShardRange[OF wf wb p dv i] by (simp add: len)
  note t = scatterReduceAndResetGrads_sum[OF wf wb dv p i, of "position [1, 0]"]
  have ones: "data (grads (graphs (projr (scatterReduceAndResetGrads (exampleWorld 2 2 4 ! 1)
                   (groupGrads (exampleWorld 2 2 4)) (position [1, 0]))) ! 0)) = [0, 0, 4, 0]"
    using t[THEN conjunct2, THEN conjunct2, THEN conjunct2, THEN mp, OF all]
    by (simp add: r len u4)
  \<comment> \<open>every rank holds its own values\<close>
  have wf': "wf_world seededWorld 2"
    by (auto simp: wf_world_def seededWorld_def less_Suc_eq)
  have wb': "wf_buffers seededWorld 4"
    by (simp add: wf_buffers_def seededWorld_def mkGraph_def)
  have len': "length seededWorld = 2" by (simp add: seededWorld_def)
  have dv': "length seededWorld * 2 dvd (4::nat)" by (simp add: len')
  have p': "1 < length seededWorld" by (simp add: len')
  have rg: "rankGrads seededWorld 2 0 = [1, 1, 1, 1]"
    "rankGrads seededWorld 2 (Suc 0) = [1, 2, 3, 4]"
    "rankGrads seededWorld 2 2 = [10, 10, 10, 10]"
    "rankGrads seededWorld 2 3 = [100, 200, 300, 400]"
    by (simp_all add: rankGrads_def seededWorld_def mkGraph_def)
  have R: "map (rankGrads seededWorld 2) [0..<4]
      = [[1, 1, 1, 1], [1, 2, 3, 4], [10, 10, 10, 10], [100, 200, 300, 400]]"
    by (simp add: u4 rg)
  have r': "rangeSet (localShardRange (seededWorld ! Suc 0) 0) = {2..<3}"
    using world_localShardRange[OF wf' wb' p' dv' i] by (simp add: len')
  note t' = scatterReduceAndResetGrads_sum[OF wf' wb' dv' p' i, of "position [1, 0]"]
  have G': "groupGrads seededWorld
      = [[1, 1, 1, 1], [1, 2, 3, 4], [10, 10, 10, 10], [100, 200, 300, 400]]"
    using t'[THEN conjunct2, THEN conjunct1] R by (simp add: len')
  have sums: "data (grads (graphs (projr (scatterReduceAndResetGrads (seededWorld ! 1)
                   (groupGrads seededWorld) (position [1, 0]))) ! 0)) = [0, 0, 314, 0]"
    using t'[THEN conjunct2, THEN conjunct2, THEN conjunct1]
    by (simp add: r' u4 len' rg)
  show ?thesis
    using wf wb dv t[THEN conjunct1] ones G' sums by simp
qed

end
